theory Spec2Isabelle
  imports Main "HOL-Library.Word" "HOL-Library.Multiset"
begin

unbundle bit_operations_syntax

section \<open>JavaScript values, errors and the entropy source\<close>

text \<open>
  A JavaScript number is either an integer (\<open>Number.isInteger\<close> holds) or anything else
  (a fraction, \<open>NaN\<close>, an infinity). The code inspects a non-integer only through
  \<open>Number.isInteger\<close>, so one constructor stands for all of them. \<open>Integral i\<close> is the
  double whose value is the integer \<open>i\<close>. The comparisons of the code and \<open>%\<close> are exact
  on such doubles, and so is the check \<open>max - min > 2 ** 32\<close>: a difference of two
  integer-valued doubles of magnitude at most \<open>2^53\<close> is a double, and a larger one
  rounds to a value that is still above \<open>2^32\<close>. The sum \<open>min + (randomValue % range)\<close>
  is not exact: it is rounded to the nearest double (function \<open>to_double\<close> below).
\<close>

datatype number = Integral int | NonIntegral

text \<open>
  The values an argument of the draw functions can take at run time. \<open>Iter\<close> is an array
  or any other non-string iterable object (its elements in iteration order), \<open>SetObj\<close> a
  native \<open>Set\<close> (its members in insertion order), \<open>Obj\<close> an object that is not
  iterable.
\<close>

datatype jsval =
    Undefined
  | Null
  | Num number
  | Str string
  | Iter "number list"
  | SetObj "number list"
  | Obj

text \<open>Every \<open>throw\<close> of the modelled functions, one constructor per message.\<close>

datatype error =
    RangeError_not_integers          \<comment> \<open>min and max must be integers.\<close>
  | RangeError_max_not_greater       \<comment> \<open>max must be greater than min.\<close>
  | RangeError_range_too_large       \<comment> \<open>range must be less than or equal to 2^32.\<close>
  | TypeError_ignore                 \<comment> \<open>ignore must be an iterable of numbers or a Set<number>.\<close>
  | RangeError_ignore_excludes_all   \<comment> \<open>Ignore set excludes all possible values in the range.\<close>
  | TypeError_length                 \<comment> \<open>Password length must be at least 1.\<close>
  | Error_timestamp_length nat       \<comment> \<open>Password length must be greater than timestamp length (n).\<close>
  | Error_no_character_types         \<comment> \<open>Cannot generate string. No character types selected.\<close>
  | Error_reference_undefined        \<comment> \<open>Cannot verify. Reference is undefined.\<close>

text \<open>
  The entropy source \<open>crypto.getRandomValues\<close>: the 32-bit words it will deliver, in order.
  The state of the world is the number of words fetched so far; filling a
  \<open>Uint32Array\<close> of \<open>n\<close> elements takes the next \<open>n\<close> words.
\<close>

type_synonym entropy = "nat \<Rightarrow> 32 word"

definition getRandomValues :: "entropy \<Rightarrow> nat \<Rightarrow> nat \<Rightarrow> 32 word list \<times> nat" where
  "getRandomValues src n p = (map src [p ..< p + n], p + n)"

section \<open>Bounded random numbers (utils/random.ts)\<close>

subsection \<open>Argument handling\<close>

text \<open>\<open>new Set(iterable)\<close>: members in order of first occurrence, duplicates dropped.\<close>

fun Set_add_all :: "'a list \<Rightarrow> 'a list \<Rightarrow> 'a list" where
  "Set_add_all acc [] = acc"
| "Set_add_all acc (x # xs) = Set_add_all (if x \<in> set acc then acc else acc @ [x]) xs"

definition new_Set :: "'a list \<Rightarrow> 'a list" where
  "new_Set xs = Set_add_all [] xs"

text \<open>
  The loop \<open>for (const v of ignoreSet)\<close> with its counter \<open>excludedInRange\<close>; it throws
  as soon as the counter reaches \<open>range\<close>.
\<close>

fun excluded_loop :: "number list \<Rightarrow> int \<Rightarrow> int \<Rightarrow> int \<Rightarrow> int \<Rightarrow> error + int" where
  "excluded_loop [] mn mx rng excludedInRange = Inr excludedInRange"
| "excluded_loop (NonIntegral # vs) mn mx rng excludedInRange =
     excluded_loop vs mn mx rng excludedInRange"
| "excluded_loop (Integral v # vs) mn mx rng excludedInRange =
     (if v \<ge> mn \<and> v < mx
      then (if excludedInRange + 1 \<ge> rng then Inl RangeError_ignore_excludes_all
            else excluded_loop vs mn mx rng (excludedInRange + 1))
      else excluded_loop vs mn mx rng excludedInRange)"

text \<open>
  The validated request of a draw: lower bound, range and the normalised ignore set
  (\<open>None\<close> when \<open>ignoreSet\<close> stays \<open>undefined\<close>).
\<close>

type_synonym request = "int \<times> int \<times> number list option"

text \<open>
  The checks of the session's \<open>next(a, b, c)\<close> before its rejection loop: overload
  resolution on \<open>typeof b === "number"\<close>, integer and order checks, the range bound,
  normalisation of \<open>ignore\<close> and the count of excluded values.
\<close>

definition next_request :: "number \<Rightarrow> jsval \<Rightarrow> jsval \<Rightarrow> error + request" where
  "next_request a b c =
     (let (mn, mx, rawIgnore) = (case b of Num n \<Rightarrow> (a, n, c) | _ \<Rightarrow> (Integral 0, a, b)) in
      case (mn, mx) of
        (Integral mn, Integral mx) \<Rightarrow>
          if mx \<le> mn then Inl RangeError_max_not_greater
          else
            let rng = mx - mn in
            if rng > 2 ^ 32 then Inl RangeError_range_too_large
            else
              (case rawIgnore of
                 Undefined \<Rightarrow> Inr (mn, rng, None)
               | Null \<Rightarrow> Inr (mn, rng, None)
               | SetObj s \<Rightarrow>
                   (case excluded_loop s mn mx rng 0 of
                      Inl e \<Rightarrow> Inl e
                    | Inr _ \<Rightarrow> Inr (mn, rng, Some s))
               | Iter xs \<Rightarrow>
                   (case excluded_loop (new_Set xs) mn mx rng 0 of
                      Inl e \<Rightarrow> Inl e
                    | Inr _ \<Rightarrow> Inr (mn, rng, Some (new_Set xs)))
               | _ \<Rightarrow> Inl TypeError_ignore)
      | _ \<Rightarrow> Inl RangeError_not_integers)"

text \<open>The same checks as written a second time in \<open>secureRandomNumber(a, b, c)\<close>.\<close>

definition secureRandomNumber_request :: "number \<Rightarrow> jsval \<Rightarrow> jsval \<Rightarrow> error + request" where
  "secureRandomNumber_request a b c =
     (let (mn, mx, rawIgnore) = (case b of Num n \<Rightarrow> (a, n, c) | _ \<Rightarrow> (Integral 0, a, b)) in
      case (mn, mx) of
        (Integral mn, Integral mx) \<Rightarrow>
          if mx \<le> mn then Inl RangeError_max_not_greater
          else
            let rng = mx - mn in
            if rng > 2 ^ 32 then Inl RangeError_range_too_large
            else
              (case rawIgnore of
                 Undefined \<Rightarrow> Inr (mn, rng, None)
               | Null \<Rightarrow> Inr (mn, rng, None)
               | SetObj s \<Rightarrow>
                   (case excluded_loop s mn mx rng 0 of
                      Inl e \<Rightarrow> Inl e
                    | Inr _ \<Rightarrow> Inr (mn, rng, Some s))
               | Iter xs \<Rightarrow>
                   (case excluded_loop (new_Set xs) mn mx rng 0 of
                      Inl e \<Rightarrow> Inl e
                    | Inr _ \<Rightarrow> Inr (mn, rng, Some (new_Set xs)))
               | _ \<Rightarrow> Inl TypeError_ignore)
      | _ \<Rightarrow> Inl RangeError_not_integers)"

subsection \<open>The rejection threshold\<close>

text \<open>
  \<open>maxSafe = 2 ** 32 - (2 ** 32 % range)\<close>: the largest multiple of the range within
  \<open>2^32\<close>. Raw words at or above it are rejected.
\<close>

definition maxSafe :: "int \<Rightarrow> int" where
  "maxSafe rng = 2 ^ 32 - 2 ^ 32 mod rng"

subsection \<open>Addition of numbers\<close>

text \<open>
  The number of binary digits of a positive integer (0 for the others).
\<close>

function bit_length :: "int \<Rightarrow> nat" where
  "bit_length x = (if x \<le> 0 then 0 else Suc (bit_length (x div 2)))"
  by pat_completeness auto
termination
  by (relation "measure nat") auto

declare bit_length.simps [simp del]

text \<open>
  The double nearest to an integer, as the \<open>+\<close> of two numbers delivers it for their
  exact sum: an integer of at most 53 binary digits is a double; a longer one is
  rounded to a multiple of \<open>ulp = 2^(digits - 53)\<close>, the nearer of its two neighbours,
  and on a tie the one whose 53-bit significand is even. (The sums of the draw stay
  far below \<open>2^1024\<close>, where a double overflows.)
\<close>

definition to_double :: "int \<Rightarrow> int" where
  "to_double x =
     (let n = bit_length \<bar>x\<bar> in
      if n \<le> 53 then x
      else
        let ulp = 2 ^ (n - 53); q = x div ulp; r = x mod ulp in
        if 2 * r < ulp then q * ulp
        else if 2 * r > ulp then (q + 1) * ulp
        else if even q then q * ulp else (q + 1) * ulp)"

subsection \<open>The buffered session\<close>

record generator =
  buffer :: "32 word list"
  index :: nat

definition BUFFER_SIZE :: nat where
  "BUFFER_SIZE = 256"

text \<open>A new session: a zeroed buffer and the cursor at capacity, forcing a refill.\<close>

definition createSecureRandomGenerator :: generator where
  "createSecureRandomGenerator = \<lparr>buffer = replicate BUFFER_SIZE 0, index = BUFFER_SIZE\<rparr>"

definition refillBuffer :: "entropy \<Rightarrow> generator \<times> nat \<Rightarrow> generator \<times> nat" where
  "refillBuffer src st =
     (let (buf, p') = getRandomValues src BUFFER_SIZE (snd st)
      in (\<lparr>buffer = buf, index = 0\<rparr>, p'))"

text \<open>
  The rejection loop of \<open>next\<close>. A run that never meets a word that ends the loop does not
  return: the value is \<open>None\<close>.
\<close>

partial_function (option) next_loop ::
  "entropy \<Rightarrow> int \<Rightarrow> int \<Rightarrow> number list option \<Rightarrow> generator \<times> nat \<Rightarrow> (int \<times> generator \<times> nat) option"
where
  "next_loop src mn rng ignoreSet st =
     (let st1 = (if index (fst st) \<ge> BUFFER_SIZE then refillBuffer src st else st);
          randomValue = uint (buffer (fst st1) ! index (fst st1));
          st2 = (fst st1\<lparr>index := index (fst st1) + 1\<rparr>, snd st1);
          candidate = to_double (mn + randomValue mod rng)
      in if randomValue \<ge> maxSafe rng \<or>
            (case ignoreSet of None \<Rightarrow> False | Some s \<Rightarrow> Integral candidate \<in> set s)
         then next_loop src mn rng ignoreSet st2
         else Some (candidate, st2))"

text \<open>
  \<open>next(a, b, c)\<close> of a session: the outcome (an error or the drawn integer) and the
  state after the call; an error leaves the state as it was.
\<close>

definition gen_next ::
  "entropy \<Rightarrow> number \<Rightarrow> jsval \<Rightarrow> jsval \<Rightarrow> generator \<times> nat \<Rightarrow> ((error + int) \<times> generator \<times> nat) option"
where
  "gen_next src a b c st =
     (case next_request a b c of
        Inl e \<Rightarrow> Some (Inl e, st)
      | Inr (mn, rng, ignoreSet) \<Rightarrow>
          (case next_loop src mn rng ignoreSet st of
             None \<Rightarrow> None
           | Some (candidate, st') \<Rightarrow> Some (Inr candidate, st')))"

subsection \<open>The one-shot draw\<close>

partial_function (option) secureRandomNumber_loop ::
  "entropy \<Rightarrow> int \<Rightarrow> int \<Rightarrow> number list option \<Rightarrow> nat \<Rightarrow> (int \<times> nat) option"
where
  "secureRandomNumber_loop src mn rng ignoreSet p =
     (let (randomBytes, p') = getRandomValues src 1 p;
          randomValue = uint (randomBytes ! 0);
          candidate = to_double (mn + randomValue mod rng)
      in if randomValue \<ge> maxSafe rng \<or>
            (case ignoreSet of None \<Rightarrow> False | Some s \<Rightarrow> Integral candidate \<in> set s)
         then secureRandomNumber_loop src mn rng ignoreSet p'
         else Some (candidate, p'))"

definition secureRandomNumber ::
  "entropy \<Rightarrow> number \<Rightarrow> jsval \<Rightarrow> jsval \<Rightarrow> nat \<Rightarrow> ((error + int) \<times> nat) option"
where
  "secureRandomNumber src a b c p =
     (case secureRandomNumber_request a b c of
        Inl e \<Rightarrow> Some (Inl e, p)
      | Inr (mn, rng, ignoreSet) \<Rightarrow>
          (case secureRandomNumber_loop src mn rng ignoreSet p of
             None \<Rightarrow> None
           | Some (candidate, p') \<Rightarrow> Some (Inr candidate, p')))"

section \<open>Notions used to state the properties of the draw\<close>

text \<open>
  An excluded value that counts: an integer inside \<open>[lo, hi)\<close>.
\<close>

definition excluded_in_range :: "int \<Rightarrow> int \<Rightarrow> number \<Rightarrow> bool" where
  "excluded_in_range lo hi v = (case v of Integral i \<Rightarrow> lo \<le> i \<and> i < hi | NonIntegral \<Rightarrow> False)"

text \<open>
  The number of distinct excluded integer values inside \<open>[lo, hi)\<close>.
\<close>

definition excluded_count :: "int \<Rightarrow> int \<Rightarrow> number list \<Rightarrow> int" where
  "excluded_count lo hi s = int (card (set (filter (excluded_in_range lo hi) s)))"

text \<open>
  A native \<open>Set\<close> holds each member once.
\<close>

definition well_formed :: "jsval \<Rightarrow> bool" where
  "well_formed v = (case v of SetObj s \<Rightarrow> distinct s | _ \<Rightarrow> True)"

text \<open>
  The error cases of a draw \<open>(mn, mx, ig)\<close> as the specification lists them, read in
  order: invalid range, range too large, invalid exclusion type, exhausted range;
  \<open>None\<close> when no error is due.
\<close>

definition draw_error :: "number \<Rightarrow> number \<Rightarrow> jsval \<Rightarrow> error option" where
  "draw_error mn mx ig =
     (case (mn, mx) of
        (Integral lo, Integral hi) \<Rightarrow>
          if hi \<le> lo then Some RangeError_max_not_greater
          else if hi - lo > 2 ^ 32 then Some RangeError_range_too_large
          else (case ig of
                  Undefined \<Rightarrow> None
                | Null \<Rightarrow> None
                | SetObj s \<Rightarrow>
                    if hi - lo \<le> excluded_count lo hi s
                    then Some RangeError_ignore_excludes_all else None
                | Iter s \<Rightarrow>
                    if hi - lo \<le> excluded_count lo hi s
                    then Some RangeError_ignore_excludes_all else None
                | _ \<Rightarrow> Some TypeError_ignore)
      | _ \<Rightarrow> Some RangeError_not_integers)"

text \<open>
  A raw word passes the rejection loop when the loop's condition is false for it: it
  lies below \<open>maxSafe\<close> and the candidate computed from it is not in \<open>ignoreSet\<close>.
\<close>

definition passes :: "int \<Rightarrow> int \<Rightarrow> number list option \<Rightarrow> 32 word \<Rightarrow> bool" where
  "passes mn rng ig raw =
     (uint raw < maxSafe rng \<and>
      (case ig of None \<Rightarrow> True
       | Some s \<Rightarrow> Integral (to_double (mn + uint raw mod rng)) \<notin> set s))"

text \<open>
  \<open>k\<close> is the position of the first passing word of a sequence of raw words.
\<close>

definition first_passing :: "int \<Rightarrow> int \<Rightarrow> number list option \<Rightarrow> (nat \<Rightarrow> 32 word) \<Rightarrow> nat \<Rightarrow> bool" where
  "first_passing mn rng ig ws k =
     (passes mn rng ig (ws k) \<and> (\<forall>j<k. \<not> passes mn rng ig (ws j)))"

text \<open>
  The specification's acceptance of a raw word, in its own terms: the word satisfies
  \<open>raw < 2^32 - (2^32 mod range)\<close> and the integer \<open>min + (raw mod range)\<close> is not
  excluded.
\<close>

definition accepted :: "int \<Rightarrow> int \<Rightarrow> number list option \<Rightarrow> 32 word \<Rightarrow> bool" where
  "accepted mn rng ig raw =
     (uint raw < 2 ^ 32 - 2 ^ 32 mod rng \<and>
      (case ig of None \<Rightarrow> True | Some s \<Rightarrow> Integral (mn + uint raw mod rng) \<notin> set s))"

text \<open>
  \<open>k\<close> is the position of the first accepted word of a sequence of raw words.
\<close>

definition first_accepted :: "int \<Rightarrow> int \<Rightarrow> number list option \<Rightarrow> (nat \<Rightarrow> 32 word) \<Rightarrow> nat \<Rightarrow> bool" where
  "first_accepted mn rng ig ws k =
     (accepted mn rng ig (ws k) \<and> (\<forall>j<k. \<not> accepted mn rng ig (ws j)))"

text \<open>
  The words a session will read, in order: the unread rest of its buffer, then the
  words the entropy source delivers from position \<open>snd st\<close> on.
\<close>

definition pending :: "entropy \<Rightarrow> generator \<times> nat \<Rightarrow> nat \<Rightarrow> 32 word" where
  "pending src st k =
     (if index (fst st) + k < BUFFER_SIZE then buffer (fst st) ! (index (fst st) + k)
      else src (snd st + (index (fst st) + k - BUFFER_SIZE)))"

text \<open>
  The session after reading one word (refilling first when the cursor is at capacity).
\<close>

definition consume :: "entropy \<Rightarrow> generator \<times> nat \<Rightarrow> generator \<times> nat" where
  "consume src st =
     (let st1 = (if index (fst st) \<ge> BUFFER_SIZE then refillBuffer src st else st)
      in (fst st1\<lparr>index := index (fst st1) + 1\<rparr>, snd st1))"

text \<open>
  The invariant of a session: a buffer of \<open>BUFFER_SIZE\<close> words and a cursor within it
  or at capacity.
\<close>

definition session_ok :: "generator \<times> nat \<Rightarrow> bool" where
  "session_ok st = (length (buffer (fst st)) = BUFFER_SIZE \<and> index (fst st) \<le> BUFFER_SIZE)"

text \<open>
  The exclusion arguments the draw accepts: absent, a \<open>Set\<close>, or a non-string iterable.
\<close>

definition exclusion_input :: "jsval \<Rightarrow> bool" where
  "exclusion_input ig =
     (case ig of Undefined \<Rightarrow> True | Null \<Rightarrow> True | SetObj s \<Rightarrow> distinct s | Iter xs \<Rightarrow> True
      | _ \<Rightarrow> False)"

text \<open>
  The local \<open>ignoreSet\<close> the code builds from an accepted exclusion argument.
\<close>

definition ignoreSet_of :: "jsval \<Rightarrow> number list option" where
  "ignoreSet_of ig =
     (case ig of SetObj s \<Rightarrow> Some s | Iter xs \<Rightarrow> Some (new_Set xs) | _ \<Rightarrow> None)"

text \<open>
  The values an exclusion argument holds.
\<close>

definition members :: "jsval \<Rightarrow> number list" where
  "members ig = (case ig of SetObj s \<Rightarrow> s | Iter xs \<Rightarrow> xs | _ \<Rightarrow> [])"



text \<open>
  An entropy source that delivers a word below \<open>2^31\<close> again and again. Such a word
  lies below the rejection threshold of every range, so no rejection loop without
  exclusions runs forever on it.
\<close>

definition fair :: "entropy \<Rightarrow> bool" where
  "fair src = (\<forall>p. \<exists>k. uint (src (p + k)) < 2 ^ 31)"

section \<open>Secure shuffle (utils/random.ts)\<close>

text \<open>
  Arrays are objects: a store maps a reference to the contents of the array it denotes,
  and a write through one reference is seen through every alias.
\<close>

type_synonym ref = nat
type_synonym 'a store = "ref \<Rightarrow> 'a list"

text \<open>
  The loop \<open>for (let i = array.length - 1; i > 0; i--)\<close>, started at \<open>i\<close>: it draws
  \<open>j = gen.next(i + 1)\<close> and performs the destructuring swap
  \<open>[array[i], array[j]] = [array[j], array[i]]\<close> on the stored array.
\<close>

fun shuffle_loop ::
  "entropy \<Rightarrow> nat \<Rightarrow> ref \<Rightarrow> 'a store \<times> generator \<times> nat \<Rightarrow>
     ((error + unit) \<times> 'a store \<times> generator \<times> nat) option"
where
  "shuffle_loop src 0 array (h, st) = Some (Inr (), h, st)"
| "shuffle_loop src (Suc i) array (h, st) =
     (case gen_next src (Integral (int (Suc i) + 1)) Undefined Undefined st of
        None \<Rightarrow> None
      | Some (Inl e, st') \<Rightarrow> Some (Inl e, h, st')
      | Some (Inr j, st') \<Rightarrow>
          shuffle_loop src i array
            (h(array := (h array)[Suc i := h array ! nat j, nat j := h array ! Suc i]), st'))"

text \<open>
  \<open>secureShuffle(array, generator?)\<close>. The generator is the caller's session when one is
  passed (its state after the call is returned), else a session created for the call
  and dropped. The result is the reference passed in.
\<close>

definition secureShuffle ::
  "entropy \<Rightarrow> ref \<Rightarrow> generator option \<Rightarrow> 'a store \<times> nat \<Rightarrow>
     ((error + ref) \<times> 'a store \<times> generator option \<times> nat) option"
where
  "secureShuffle src array generator hp =
     (let gen = (case generator of Some g \<Rightarrow> g | None \<Rightarrow> createSecureRandomGenerator) in
      case shuffle_loop src (length (fst hp array) - 1) array (fst hp, gen, snd hp) of
        None \<Rightarrow> None
      | Some (Inl e, h', gen', p') \<Rightarrow>
          Some (Inl e, h', (case generator of Some _ \<Rightarrow> Some gen' | None \<Rightarrow> None), p')
      | Some (Inr _, h', gen', p') \<Rightarrow>
          Some (Inr array, h', (case generator of Some _ \<Rightarrow> Some gen' | None \<Rightarrow> None), p'))"

text \<open>
  Fisher-Yates as the specification states it, on the contents of the sequence: for
  \<open>i\<close> from the given index down to 1, draw \<open>j = next(0, i + 1)\<close> and swap the elements at
  \<open>i\<close> and \<open>j\<close>.
\<close>

definition swap :: "nat \<Rightarrow> nat \<Rightarrow> 'a list \<Rightarrow> 'a list" where
  "swap i j xs = xs[i := xs ! j, j := xs ! i]"

fun fisher_yates ::
  "entropy \<Rightarrow> nat \<Rightarrow> 'a list \<Rightarrow> generator \<times> nat \<Rightarrow> ((error + 'a list) \<times> generator \<times> nat) option"
where
  "fisher_yates src 0 xs st = Some (Inr xs, st)"
| "fisher_yates src (Suc i) xs st =
     (case gen_next src (Integral 0) (Num (Integral (int (Suc i) + 1))) Undefined st of
        None \<Rightarrow> None
      | Some (Inl e, st') \<Rightarrow> Some (Inl e, st')
      | Some (Inr j, st') \<Rightarrow> fisher_yates src i (swap (Suc i) (nat j) xs) st')"

text \<open>The session a shuffle draws from: the one supplied, else a new one.\<close>

definition session_of :: "generator option \<Rightarrow> generator" where
  "session_of generator = (case generator of Some g \<Rightarrow> g | None \<Rightarrow> createSecureRandomGenerator)"

text \<open>The caller's session after a call that left the session used in state \<open>g'\<close>.\<close>

definition session_after :: "generator option \<Rightarrow> generator \<Rightarrow> generator option" where
  "session_after generator g' = (case generator of Some _ \<Rightarrow> Some g' | None \<Rightarrow> None)"

section \<open>Secure string generation (generate.ts)\<close>

text \<open>
  A string is a list of characters; a character stands for one code unit of the
  JavaScript string, so \<open>length\<close> is \<open>.length\<close> and \<open>!\<close> is indexing.
\<close>

definition DEFAULT_UPPERCASE :: string where
  "DEFAULT_UPPERCASE = ''ABCDEFGHIJKLMNOPQRSTUVWXYZ''"

definition DEFAULT_LOWERCASE :: string where
  "DEFAULT_LOWERCASE = ''abcdefghijklmnopqrstuvwxyz''"

definition DEFAULT_NUMBERS :: string where
  "DEFAULT_NUMBERS = ''0123456789''"

definition DEFAULT_SPECIALS :: string where
  "DEFAULT_SPECIALS = ''!@#$%^&*()_+{}:<>?|[];,./~-=''"

definition DEFAULT_LENGTH :: int where
  "DEFAULT_LENGTH = 16"

text \<open>The selector of a character class: \<open>boolean | string\<close>.\<close>

datatype selector = Flag bool | Alphabet string

text \<open>
  The \<open>timestamp\<close> option: \<open>true\<close> or a \<open>Date\<close>. A \<open>Date\<close> holds its time value in
  milliseconds, or is invalid (\<open>getTime()\<close> is \<open>NaN\<close>).
\<close>

datatype date = Date int | Invalid_Date

datatype timestamp = Timestamp_true | Timestamp_date date

record SecureGenerateOptions =
  length_opt :: "int option"
  uppercase :: "selector option"
  lowercase :: "selector option"
  numbers :: "selector option"
  specials :: "selector option"
  timestamp :: "timestamp option"

datatype numOrOptions = Length int | Options SecureGenerateOptions

text \<open>\<open>date.getTime().toString(36)\<close>.\<close>

definition digit36 :: "nat \<Rightarrow> char" where
  "digit36 d = ''0123456789abcdefghijklmnopqrstuvwxyz'' ! d"

function digits36 :: "nat \<Rightarrow> string" where
  "digits36 n = (if n < 36 then [digit36 n] else digits36 (n div 36) @ [digit36 (n mod 36)])"
  by pat_completeness auto
termination
  by (relation "measure (\<lambda>n. n)") auto

definition getTime_toString36 :: "date \<Rightarrow> string" where
  "getTime_toString36 d =
     (case d of
        Invalid_Date \<Rightarrow> ''NaN''
      | Date t \<Rightarrow> if t < 0 then CHR ''-'' # digits36 (nat (- t)) else digits36 (nat t))"

text \<open>
  Sequencing of steps that use the session: a step that throws ends the sequence with
  its error, a step that does not return ends it without a result.
\<close>

type_synonym 'a step = "generator \<times> nat \<Rightarrow> ((error + 'a) \<times> generator \<times> nat) option"

definition bind :: "'a step \<Rightarrow> ('a \<Rightarrow> 'b step) \<Rightarrow> 'b step" where
  "bind m f st =
     (case m st of
        None \<Rightarrow> None
      | Some (Inl e, st') \<Rightarrow> Some (Inl e, st')
      | Some (Inr v, st') \<Rightarrow> f v st')"

definition return :: "'a \<Rightarrow> 'a step" where
  "return v st = Some (Inr v, st)"

definition throw :: "error \<Rightarrow> 'a step" where
  "throw e st = Some (Inl e, st)"

definition shouldIncludeSet :: "selector \<Rightarrow> bool" where
  "shouldIncludeSet set' =
     (set' \<noteq> Flag False \<and>
      (set' = Flag True \<or> (case set' of Alphabet s \<Rightarrow> length s > 0 | Flag _ \<Rightarrow> False)))"

definition characterSetBuilder :: "entropy \<Rightarrow> selector \<Rightarrow> string \<Rightarrow> (string \<times> char) step" where
  "characterSetBuilder src set' defaultSet =
     (let used = (case set' of Alphabet s \<Rightarrow> s | Flag _ \<Rightarrow> defaultSet) in
      bind (gen_next src (Integral (int (length used))) Undefined Undefined)
        (\<lambda>j. return (used, used ! nat j)))"

text \<open>
  One of the four blocks \<open>if (_shouldIncludeSet(x)) { ... }\<close>, on the pair
  \<open>(charset, guaranteedChars)\<close>.
\<close>

definition add_class ::
  "entropy \<Rightarrow> selector \<Rightarrow> string \<Rightarrow> string \<times> char list \<Rightarrow> (string \<times> char list) step"
where
  "add_class src set' defaultSet acc =
     (if shouldIncludeSet set'
      then bind (characterSetBuilder src set' defaultSet)
             (\<lambda>(used, guaranteed). return (fst acc @ used, snd acc @ [guaranteed]))
      else return acc)"

text \<open>
  The loop \<open>for (let i = 0; i < remainingLength; i++)\<close> with \<open>n\<close> iterations to go,
  pushing \<open>charset[random.next(charset.length)]\<close> to \<open>randomChars\<close>.
\<close>

fun random_chars :: "entropy \<Rightarrow> string \<Rightarrow> nat \<Rightarrow> char list \<Rightarrow> char list step" where
  "random_chars src charset 0 randomChars = return randomChars"
| "random_chars src charset (Suc n) randomChars =
     bind (gen_next src (Integral (int (length charset))) Undefined Undefined)
       (\<lambda>j. random_chars src charset n (randomChars @ [charset ! nat j]))"

text \<open>
  \<open>secureShuffle([...guaranteedChars, ...randomChars], random)\<close>: the array literal is a new
  array, alone in a store of its own, shuffled with the session of the call.
\<close>

definition shuffle_new_array :: "entropy \<Rightarrow> 'a list \<Rightarrow> 'a list step" where
  "shuffle_new_array src xs st =
     (case secureShuffle src 0 (Some (fst st)) ((\<lambda>_. [])(0 := xs), snd st) of
        None \<Rightarrow> None
      | Some (Inl e, h', random', p') \<Rightarrow> Some (Inl e, session_of random', p')
      | Some (Inr array, h', random', p') \<Rightarrow> Some (Inr (h' array), session_of random', p'))"

text \<open>The body of \<open>secureGenerate\<close> from the creation of the session on.\<close>

definition generate ::
  "entropy \<Rightarrow> int \<Rightarrow> string \<Rightarrow> selector \<Rightarrow> selector \<Rightarrow> selector \<Rightarrow> selector \<Rightarrow> string step"
where
  "generate src len timestampStr uppercase' lowercase' numbers' specials' =
     bind (add_class src uppercase' DEFAULT_UPPERCASE ([], [])) (\<lambda>acc1.
     bind (add_class src lowercase' DEFAULT_LOWERCASE acc1) (\<lambda>acc2.
     bind (add_class src numbers' DEFAULT_NUMBERS acc2) (\<lambda>acc3.
     bind (add_class src specials' DEFAULT_SPECIALS acc3) (\<lambda>(charset, guaranteedChars).
       if charset = [] then throw Error_no_character_types
       else
         let lengthToGenerate = len - int (length timestampStr);
             remainingLength = lengthToGenerate - int (length guaranteedChars)
         in
           bind (if remainingLength > 0 then random_chars src charset (nat remainingLength) []
                 else return []) (\<lambda>randomChars.
           bind (shuffle_new_array src (guaranteedChars @ randomChars)) (\<lambda>finalPasswordArray.
           return (timestampStr @ take (nat lengthToGenerate) finalPasswordArray)))))))"

text \<open>
  The first lines of \<open>secureGenerate\<close>: the argument is a length or an options object,
  absent fields take their defaults.
\<close>

definition resolve_options ::
  "numOrOptions option \<Rightarrow> int \<times> selector \<times> selector \<times> selector \<times> selector \<times> timestamp option"
where
  "resolve_options numOrOptions =
     (case (case numOrOptions of None \<Rightarrow> Length DEFAULT_LENGTH | Some a \<Rightarrow> a) of
        Length n \<Rightarrow> (n, Flag True, Flag True, Flag True, Flag True, None)
      | Options opts \<Rightarrow>
          (case length_opt opts of None \<Rightarrow> DEFAULT_LENGTH | Some n \<Rightarrow> n,
           case uppercase opts of None \<Rightarrow> Flag True | Some s \<Rightarrow> s,
           case lowercase opts of None \<Rightarrow> Flag True | Some s \<Rightarrow> s,
           case numbers opts of None \<Rightarrow> Flag True | Some s \<Rightarrow> s,
           case specials opts of None \<Rightarrow> Flag True | Some s \<Rightarrow> s,
           timestamp opts))"

text \<open>\<open>timestampStr\<close>; \<open>now\<close> is the time value of \<open>new Date()\<close>.\<close>

definition timestamp_string :: "int \<Rightarrow> timestamp option \<Rightarrow> string" where
  "timestamp_string now timestamp' =
     (case timestamp' of
        None \<Rightarrow> []
      | Some Timestamp_true \<Rightarrow> getTime_toString36 (Date now)
      | Some (Timestamp_date d) \<Rightarrow> getTime_toString36 d)"

text \<open>
  \<open>secureGenerate(numOrOptions)\<close>. The result comes with the number of words fetched from
  the entropy source after the call.
\<close>

definition secureGenerate ::
  "entropy \<Rightarrow> int \<Rightarrow> numOrOptions option \<Rightarrow> nat \<Rightarrow> ((error + string) \<times> nat) option"
where
  "secureGenerate src now numOrOptions p =
     (let (len, uppercase', lowercase', numbers', specials', timestamp') =
            resolve_options numOrOptions;
          timestampStr = timestamp_string now timestamp'
      in
        if len < 1 then Some (Inl TypeError_length, p)
        else if timestampStr \<noteq> [] \<and> len \<le> int (length timestampStr)
        then Some (Inl (Error_timestamp_length (length timestampStr)), p)
        else
          (case generate src len timestampStr uppercase' lowercase' numbers' specials'
                  (createSecureRandomGenerator, p) of
             None \<Rightarrow> None
           | Some (r, random', p') \<Rightarrow> Some (r, p')))"

section \<open>Notions used to state the properties of the generated string\<close>

text \<open>
  The alphabet of a class, when the class is enabled: the default for \<open>true\<close>, the custom
  string when it is not empty.
\<close>

definition class_alphabet :: "selector \<Rightarrow> string \<Rightarrow> string list" where
  "class_alphabet sel defaultSet =
     (case sel of
        Flag b \<Rightarrow> if b then [defaultSet] else []
      | Alphabet s \<Rightarrow> if s = [] then [] else [s])"

text \<open>The alphabets of the enabled classes, in the order of the classes.\<close>

definition enabled_alphabets :: "selector \<Rightarrow> selector \<Rightarrow> selector \<Rightarrow> selector \<Rightarrow> string list" where
  "enabled_alphabets u l n s =
     class_alphabet u DEFAULT_UPPERCASE @ class_alphabet l DEFAULT_LOWERCASE @
     class_alphabet n DEFAULT_NUMBERS @ class_alphabet s DEFAULT_SPECIALS"





text \<open>A selector with the empty string replaced by \<open>false\<close>.\<close>

definition disable_empty :: "selector option \<Rightarrow> selector option" where
  "disable_empty sel = (if sel = Some (Alphabet []) then Some (Flag False) else sel)"

section \<open>Constant-time comparison (verification.ts)\<close>

text \<open>An operand of the comparison: a string or a \<open>Uint8Array\<close>.\<close>

datatype operand = Text string | Bytes "8 word list"

text \<open>
  \<open>_toUint8Array\<close>. The platform's \<open>TextEncoder.encode\<close> is a parameter of the model.
\<close>

definition toUint8Array :: "(string \<Rightarrow> 8 word list) \<Rightarrow> operand \<Rightarrow> 8 word list" where
  "toUint8Array encode input = (case input of Text s \<Rightarrow> encode s | Bytes b \<Rightarrow> b)"

text \<open>
  \<open>!reference || reference.length === 0\<close>: the reference is \<open>undefined\<close>, the empty
  string (which is falsy), or has length 0.
\<close>

definition reference_missing :: "operand option \<Rightarrow> bool" where
  "reference_missing reference =
     (case reference of
        None \<Rightarrow> True
      | Some (Text s) \<Rightarrow> s = [] \<or> length s = 0
      | Some (Bytes b) \<Rightarrow> length b = 0)"

text \<open>
  The loop \<open>for (const [i, element] of a.entries())\<close> from index \<open>i\<close> on, with
  \<open>mismatch |= element ^ (b[i] ?? 0)\<close> on 32-bit integers. Beside the accumulator it
  returns the number of iterations it performed.
\<close>

fun compare_loop :: "8 word list \<Rightarrow> 8 word list \<Rightarrow> nat \<Rightarrow> 32 word \<Rightarrow> 32 word \<times> nat" where
  "compare_loop [] b i mismatch = (mismatch, 0)"
| "compare_loop (element # rest) b i mismatch =
     (let (m, n) = compare_loop rest b (i + 1)
                     (mismatch OR (ucast element XOR (if i < length b then ucast (b ! i) else 0)))
      in (m, n + 1))"

text \<open>
  \<open>secureCompare(reference, incoming)\<close> with the number of loop iterations it performed.
  The operator \<open>^\<close> works on the operands converted to 32-bit integers, so the two
  lengths are compared modulo \<open>2^32\<close>.
\<close>

definition secureCompare_run ::
  "(string \<Rightarrow> 8 word list) \<Rightarrow> operand option \<Rightarrow> operand option \<Rightarrow> (error + bool) \<times> nat"
where
  "secureCompare_run encode reference incoming =
     (if reference_missing reference then (Inl Error_reference_undefined, 0)
      else
        let a = toUint8Array encode (the reference);
            (b, isIncomingUndefined) =
               (case incoming of None \<Rightarrow> ([], 1 :: 32 word)
                | Some inc \<Rightarrow> (toUint8Array encode inc, 0));
            mismatch0 = (if isIncomingUndefined \<noteq> 0 then isIncomingUndefined
                         else word_of_nat (length a) XOR word_of_nat (length b));
            (mismatch, iterations) = compare_loop a b 0 mismatch0
        in (Inr (mismatch = 0), iterations))"

definition secureCompare ::
  "(string \<Rightarrow> 8 word list) \<Rightarrow> operand option \<Rightarrow> operand option \<Rightarrow> error + bool"
where
  "secureCompare encode reference incoming = fst (secureCompare_run encode reference incoming)"

text \<open>
  UTF-8 of a string whose characters are code points below 256, as \<open>TextEncoder\<close>
  encodes it: one byte below 128, two bytes from 128 on.
\<close>

definition utf8_char :: "char \<Rightarrow> 8 word list" where
  "utf8_char c =
     (let n = (of_char c :: nat) in
      if n < 128 then [of_nat n]
      else [of_nat (192 + n div 64), of_nat (128 + n mod 64)])"

definition utf8_encode :: "string \<Rightarrow> 8 word list" where
  "utf8_encode s = concat (map utf8_char s)"

text \<open>
  What the loop accumulates, said without the loop: the initial value OR-ed with the
  XOR of every byte of \<open>a\<close> and the byte of \<open>b\<close> at the same index (0 beyond the end of
  \<open>b\<close>), over all indices of \<open>a\<close>.
\<close>

definition or_all :: "8 word list \<Rightarrow> 8 word list \<Rightarrow> 32 word \<Rightarrow> 32 word" where
  "or_all a b mismatch0 =
     fold (\<lambda>k m. m OR (ucast (a ! k) XOR (if k < length b then ucast (b ! k) else 0)))
       [0 ..< length a] mismatch0"

section \<open>Properties of the bounded draw\<close>

lemma bit_length_le: "bit_length x \<le> k \<longleftrightarrow> x < 2 ^ k"
proof (induction k arbitrary: x)
  case 0
  then show ?case by (subst bit_length.simps) auto
next
  case (Suc k)
  have "x div 2 < 2 ^ k \<longleftrightarrow> x < 2 ^ Suc k" by auto
  moreover have "x \<le> 0 \<Longrightarrow> x < 2 ^ Suc k"
    using zero_less_power [of "2 :: int" "Suc k"] by linarith
  ultimately show ?case using Suc [of "x div 2"] by (subst bit_length.simps) auto
qed

lemma bit_length_eq: "2 ^ k \<le> x \<Longrightarrow> x < 2 ^ Suc k \<Longrightarrow> bit_length x = Suc k"
  using bit_length_le [of x k] bit_length_le [of x "Suc k"] by simp

text \<open>
  Rounding leaves the integers of magnitude at most \<open>2^53\<close> as they are.
\<close>

lemma to_double_exact: "\<bar>x\<bar> \<le> 2 ^ 53 \<Longrightarrow> to_double x = x"
proof (cases "\<bar>x\<bar> = 2 ^ 53")
  case True
  then have n: "bit_length \<bar>x\<bar> = 54" by (simp add: bit_length_eq [of 53])
  from True have "x = 2 ^ 53 \<or> x = - (2 ^ 53)" by linarith
  then show ?thesis by (auto simp: to_double_def n)
next
  case False
  assume "\<bar>x\<bar> \<le> 2 ^ 53"
  with False have "\<bar>x\<bar> < 2 ^ 53" by simp
  then have "bit_length \<bar>x\<bar> \<le> 53" unfolding bit_length_le .
  then show ?thesis by (simp add: to_double_def)
qed

lemma candidate_exact:
  assumes "0 < rng" "- (2 ^ 53) \<le> mn" "mn + rng \<le> 2 ^ 53"
  shows "to_double (mn + uint (w :: 32 word) mod rng) = mn + uint w mod rng"
proof -
  have "0 \<le> uint w mod rng" "uint w mod rng < rng" using assms(1) by simp_all
  with assms(2,3) have "\<bar>mn + uint w mod rng\<bar> \<le> 2 ^ 53" by linarith
  then show ?thesis by (rule to_double_exact)
qed

lemma passes_accepted:
  assumes "0 < rng" "- (2 ^ 53) \<le> mn" "mn + rng \<le> 2 ^ 53"
  shows "passes mn rng ig w = accepted mn rng ig w"
  unfolding passes_def accepted_def maxSafe_def candidate_exact [OF assms] by (rule refl)

lemma first_passing_accepted:
  assumes "0 < rng" "- (2 ^ 53) \<le> mn" "mn + rng \<le> 2 ^ 53"
  shows "first_passing mn rng ig ws k = first_accepted mn rng ig ws k"
  unfolding first_passing_def first_accepted_def passes_accepted [OF assms] by (rule refl)

lemma set_Set_add_all: "set (Set_add_all acc xs) = set acc \<union> set xs"
  by (induction acc xs rule: Set_add_all.induct) auto

lemma distinct_Set_add_all: "distinct acc \<Longrightarrow> distinct (Set_add_all acc xs)"
  by (induction acc xs rule: Set_add_all.induct) auto

lemma set_new_Set: "set (new_Set xs) = set xs"
  by (simp add: new_Set_def set_Set_add_all)

lemma distinct_new_Set: "distinct (new_Set xs)"
  by (simp add: new_Set_def distinct_Set_add_all)

lemma excluded_loop_error:
  "excluded_loop vs lo hi rng k = Inl e \<Longrightarrow> e = RangeError_ignore_excludes_all"
  by (induction vs lo hi rng k rule: excluded_loop.induct) (auto split: if_splits)

lemma excluded_loop_throws_iff:
  "k < rng \<Longrightarrow>
     (excluded_loop vs lo hi rng k = Inl RangeError_ignore_excludes_all) =
     (rng \<le> k + int (length (filter (excluded_in_range lo hi) vs)))"
  by (induction vs lo hi rng k rule: excluded_loop.induct)
     (auto simp: excluded_in_range_def)

lemma excluded_count_distinct:
  "distinct s \<Longrightarrow> excluded_count lo hi s = int (length (filter (excluded_in_range lo hi) s))"
  by (simp add: excluded_count_def distinct_card del: set_filter)

lemma excluded_count_new_Set: "excluded_count lo hi (new_Set xs) = excluded_count lo hi xs"
  by (simp add: excluded_count_def set_new_Set)

lemma excluded_loop_cases:
  assumes "distinct s" "0 < rng"
  shows "excluded_loop s lo hi rng 0 =
           (if rng \<le> excluded_count lo hi s then Inl RangeError_ignore_excludes_all
            else excluded_loop s lo hi rng 0) \<and>
         (\<not> rng \<le> excluded_count lo hi s \<longrightarrow> (\<exists>k. excluded_loop s lo hi rng 0 = Inr k))"
proof -
  have iff: "(excluded_loop s lo hi rng 0 = Inl RangeError_ignore_excludes_all) = (rng \<le> excluded_count lo hi s)"
    using excluded_loop_throws_iff [of 0 rng s lo hi] assms by (simp add: excluded_count_distinct)
  show ?thesis
  proof (cases "excluded_loop s lo hi rng 0")
    case (Inl e)
    then have "e = RangeError_ignore_excludes_all" by (rule excluded_loop_error)
    with Inl iff show ?thesis by simp
  next
    case (Inr k)
    with iff show ?thesis by auto
  qed
qed

lemma next_request_error:
  assumes "well_formed ig"
  shows "(next_request mn (Num mx) ig = Inl e) = (draw_error mn mx ig = Some e)"
proof (cases mn; cases mx)
  fix lo hi assume mn: "mn = Integral lo" and mx: "mx = Integral hi"
  show ?thesis
  proof (cases "hi \<le> lo \<or> hi - lo > 2 ^ 32")
    case True
    then show ?thesis by (auto simp: mn mx next_request_def draw_error_def)
  next
    case False
    then have pos: "0 < hi - lo" by simp
    show ?thesis
    proof (cases ig)
      case (SetObj s)
      with assms have "distinct s" by (simp add: well_formed_def)
      from excluded_loop_cases [OF this pos, of lo hi] False SetObj show ?thesis
        by (auto simp: mn mx next_request_def draw_error_def Let_def split: sum.splits)
    next
      case (Iter xs)
      from excluded_loop_cases [OF distinct_new_Set pos, of xs lo hi] False Iter show ?thesis
        by (auto simp: mn mx next_request_def draw_error_def Let_def excluded_count_new_Set
                 split: sum.splits)
    qed (use False in \<open>auto simp: mn mx next_request_def draw_error_def\<close>)
  qed
qed (auto simp: next_request_def draw_error_def)

lemma request_same: "secureRandomNumber_request a b c = next_request a b c"
  by (simp add: secureRandomNumber_request_def next_request_def)

lemma secureRandomNumber_loop_unfold:
  "secureRandomNumber_loop src mn rng ig p =
     (if passes mn rng ig (src p) then Some (to_double (mn + uint (src p) mod rng), p + 1)
      else secureRandomNumber_loop src mn rng ig (p + 1))"
  by (subst secureRandomNumber_loop.simps)
     (simp add: getRandomValues_def passes_def not_less split: option.splits)

lemma secureRandomNumber_loop_first:
  "first_passing mn rng ig (\<lambda>j. src (p + j)) k \<Longrightarrow>
     secureRandomNumber_loop src mn rng ig p = Some (to_double (mn + uint (src (p + k)) mod rng), p + k + 1)"
proof (induction k arbitrary: p)
  case 0
  then show ?case
    by (subst secureRandomNumber_loop_unfold) (simp add: first_passing_def)
next
  case (Suc k)
  from Suc.prems have rej: "\<not> passes mn rng ig (src p)"
    by (auto simp: first_passing_def dest: spec [of _ 0])
  from Suc.prems have "first_passing mn rng ig (\<lambda>j. src (Suc p + j)) k"
    by (auto simp: first_passing_def dest: spec [of _ "Suc _"])
  from Suc.IH [OF this] rej show ?case
    by (subst secureRandomNumber_loop_unfold) simp
qed

lemma first_passing_Suc:
  "\<not> passes mn rng ig (ws 0) \<Longrightarrow> first_passing mn rng ig (\<lambda>j. ws (Suc j)) k \<Longrightarrow>
     first_passing mn rng ig ws (Suc k)"
  by (auto simp: first_passing_def less_Suc_eq_0_disj)

lemma first_passing_unique:
  "first_passing mn rng ig ws k \<Longrightarrow> first_passing mn rng ig ws k' \<Longrightarrow> k = k'"
  unfolding first_passing_def by (meson linorder_neqE_nat)

lemma first_passing_exists:
  "passes mn rng ig (ws n) \<Longrightarrow> \<exists>k\<le>n. first_passing mn rng ig ws k"
proof (induction n rule: less_induct)
  case (less n)
  show ?case
  proof (cases "\<exists>j<n. passes mn rng ig (ws j)")
    case True
    then obtain j where j: "j < n" "passes mn rng ig (ws j)" by blast
    from less.IH [OF j] obtain k where "k \<le> j" "first_passing mn rng ig ws k" by blast
    with j(1) show ?thesis by (intro exI [of _ k]) simp
  next
    case False
    with less.prems show ?thesis by (intro exI [of _ n]) (simp add: first_passing_def)
  qed
qed

lemma secureRandomNumber_body:
  "(let (randomBytes, p') = getRandomValues src 1 p;
        randomValue = uint (randomBytes ! 0);
        candidate = to_double (mn + randomValue mod rng)
    in if maxSafe rng \<le> randomValue \<or>
          (case ig of None \<Rightarrow> False | Some s \<Rightarrow> Integral candidate \<in> set s)
       then F p'
       else Some (candidate, p')) =
   (if passes mn rng ig (src p) then Some (to_double (mn + uint (src p) mod rng), p + 1) else F (p + 1))"
  by (simp add: getRandomValues_def passes_def Let_def not_less split: option.splits)

lemma secureRandomNumber_loop_Some:
  assumes "secureRandomNumber_loop src mn rng ig p = Some r"
  shows "\<exists>k. first_passing mn rng ig (\<lambda>j. src (p + j)) k \<and>
             r = (to_double (mn + uint (src (p + k)) mod rng), p + k + 1)"
proof (rule secureRandomNumber_loop.raw_induct
    [where P = "\<lambda>src mn rng ig p r. \<exists>k. first_passing mn rng ig (\<lambda>j. src (p + j)) k \<and>
             r = (to_double (mn + uint (src (p + k)) mod rng), p + k + 1)", OF _ assms])
  fix f src mn rng ig p r
  assume IH: "\<And>src mn rng ig p r. f src mn rng ig p = Some r \<Longrightarrow>
      \<exists>k. first_passing mn rng ig (\<lambda>j. src (p + j)) k \<and>
          r = (to_double (mn + uint (src (p + k)) mod rng), p + k + 1)"
    and body: "(let (randomBytes, p') = getRandomValues src 1 p;
          randomValue = uint (randomBytes ! 0);
          candidate = to_double (mn + randomValue mod rng)
      in if maxSafe rng \<le> randomValue \<or>
            (case ig of None \<Rightarrow> False
             | Some s \<Rightarrow> Integral candidate \<in> set s)
         then f src mn rng ig p'
         else Some (candidate, p')) = Some r"
  have step: "(if passes mn rng ig (src p) then Some (to_double (mn + uint (src p) mod rng), p + 1)
               else f src mn rng ig (p + 1)) = Some r"
    using body by (simp only: secureRandomNumber_body)
  show "\<exists>k. first_passing mn rng ig (\<lambda>j. src (p + j)) k \<and>
          r = (to_double (mn + uint (src (p + k)) mod rng), p + k + 1)"
  proof (cases "passes mn rng ig (src p)")
    case True
    with step have "r = (to_double (mn + uint (src p) mod rng), p + 1)" by simp
    with True show ?thesis
      by (intro exI [of _ 0]) (simp add: first_passing_def)
  next
    case False
    with step have "f src mn rng ig (p + 1) = Some r" by simp
    from IH [OF this] obtain k where
      k: "first_passing mn rng ig (\<lambda>j. src (p + 1 + j)) k"
         "r = (to_double (mn + uint (src (p + 1 + k)) mod rng), p + 1 + k + 1)"
      by blast
    from False k(1) have "first_passing mn rng ig (\<lambda>j. src (p + j)) (Suc k)"
      by (intro first_passing_Suc) simp_all
    with k(2) show ?thesis
      by (intro exI [of _ "Suc k"]) simp
  qed
qed

lemma session_ok_consume: "session_ok st \<Longrightarrow> session_ok (consume src st)"
  by (auto simp: session_ok_def consume_def refillBuffer_def getRandomValues_def BUFFER_SIZE_def)

lemma pending_consume:
  "session_ok st \<Longrightarrow> pending src (consume src st) k = pending src st (Suc k)"
  by (auto simp: session_ok_def pending_def consume_def refillBuffer_def getRandomValues_def
        BUFFER_SIZE_def)

lemma next_body:
  assumes "session_ok st"
  shows "(let st1 = (if index (fst st) \<ge> BUFFER_SIZE then refillBuffer src st else st);
          randomValue = uint (buffer (fst st1) ! index (fst st1));
          st2 = (fst st1\<lparr>index := index (fst st1) + 1\<rparr>, snd st1);
          candidate = to_double (mn + randomValue mod rng)
      in if randomValue \<ge> maxSafe rng \<or>
            (case ig of None \<Rightarrow> False | Some s \<Rightarrow> Integral candidate \<in> set s)
         then F st2
         else Some (candidate, st2)) =
     (if passes mn rng ig (pending src st 0)
      then Some (to_double (mn + uint (pending src st 0) mod rng), consume src st)
      else F (consume src st))"
proof -
  have w: "buffer (fst (if index (fst st) \<ge> BUFFER_SIZE then refillBuffer src st else st)) !
           index (fst (if index (fst st) \<ge> BUFFER_SIZE then refillBuffer src st else st)) =
           pending src st 0"
    using assms
    by (auto simp: session_ok_def pending_def refillBuffer_def getRandomValues_def BUFFER_SIZE_def)
  show ?thesis
    unfolding Let_def w consume_def [unfolded Let_def, symmetric]
    by (simp add: passes_def not_less split: option.splits)
qed

lemma next_loop_unfold:
  "session_ok st \<Longrightarrow>
     next_loop src mn rng ig st =
       (if passes mn rng ig (pending src st 0)
        then Some (to_double (mn + uint (pending src st 0) mod rng), consume src st)
        else next_loop src mn rng ig (consume src st))"
  by (subst next_loop.simps) (simp only: next_body)

lemma next_loop_first:
  "session_ok st \<Longrightarrow> first_passing mn rng ig (pending src st) k \<Longrightarrow>
     next_loop src mn rng ig st =
       Some (to_double (mn + uint (pending src st k) mod rng), (consume src ^^ Suc k) st)"
proof (induction k arbitrary: st)
  case 0
  then show ?case
    by (subst next_loop_unfold) (simp_all add: first_passing_def)
next
  case (Suc k)
  from Suc.prems have rej: "\<not> passes mn rng ig (pending src st 0)"
    by (auto simp: first_passing_def)
  from Suc.prems have "first_passing mn rng ig (pending src (consume src st)) k"
    by (auto simp: first_passing_def pending_consume)
  from Suc.IH [OF session_ok_consume [OF Suc.prems(1)] this] rej Suc.prems(1) show ?case
    by (subst next_loop_unfold) (simp_all add: pending_consume funpow_swap1)
qed

lemma next_loop_Some:
  assumes "next_loop src mn rng ig st = Some r"
  shows "session_ok st \<longrightarrow>
           (\<exists>k. first_passing mn rng ig (pending src st) k \<and>
                r = (to_double (mn + uint (pending src st k) mod rng), (consume src ^^ Suc k) st))"
proof (rule next_loop.raw_induct
    [where P = "\<lambda>src mn rng ig st r. session_ok st \<longrightarrow>
           (\<exists>k. first_passing mn rng ig (pending src st) k \<and>
                r = (to_double (mn + uint (pending src st k) mod rng), (consume src ^^ Suc k) st))",
     OF _ assms])
  fix f src mn rng ig st r
  assume IH: "\<And>src mn rng ig st r. f src mn rng ig st = Some r \<Longrightarrow>
      session_ok st \<longrightarrow>
           (\<exists>k. first_passing mn rng ig (pending src st) k \<and>
                r = (to_double (mn + uint (pending src st k) mod rng), (consume src ^^ Suc k) st))"
    and body: "(let st1 = (if index (fst st) \<ge> BUFFER_SIZE then refillBuffer src st else st);
          randomValue = uint (buffer (fst st1) ! index (fst st1));
          st2 = (fst st1\<lparr>index := index (fst st1) + 1\<rparr>, snd st1);
          candidate = to_double (mn + randomValue mod rng)
      in if randomValue \<ge> maxSafe rng \<or>
            (case ig of None \<Rightarrow> False | Some s \<Rightarrow> Integral candidate \<in> set s)
         then f src mn rng ig st2
         else Some (candidate, st2)) = Some r"
  show "session_ok st \<longrightarrow>
           (\<exists>k. first_passing mn rng ig (pending src st) k \<and>
                r = (to_double (mn + uint (pending src st k) mod rng), (consume src ^^ Suc k) st))"
  proof
    assume ok: "session_ok st"
    have step: "(if passes mn rng ig (pending src st 0)
                 then Some (to_double (mn + uint (pending src st 0) mod rng), consume src st)
                 else f src mn rng ig (consume src st)) = Some r"
      using body by (simp only: next_body [OF ok])
    show "\<exists>k. first_passing mn rng ig (pending src st) k \<and>
                r = (to_double (mn + uint (pending src st k) mod rng), (consume src ^^ Suc k) st)"
    proof (cases "passes mn rng ig (pending src st 0)")
      case True
      with step have "r = (to_double (mn + uint (pending src st 0) mod rng), consume src st)" by simp
      with True show ?thesis
        by (intro exI [of _ 0]) (simp add: first_passing_def)
    next
      case False
      with step have "f src mn rng ig (consume src st) = Some r" by simp
      from IH [OF this] session_ok_consume [OF ok] obtain k where
        k: "first_passing mn rng ig (pending src (consume src st)) k"
           "r = (to_double (mn + uint (pending src (consume src st) k) mod rng),
                 (consume src ^^ Suc k) (consume src st))"
        by blast
      from False k(1) have "first_passing mn rng ig (pending src st) (Suc k)"
        by (intro first_passing_Suc) (simp_all add: first_passing_def pending_consume [OF ok])
      with k(2) show ?thesis
        by (intro exI [of _ "Suc (Suc k)" ] exI [of _ "Suc k"])
           (simp add: pending_consume [OF ok] funpow_swap1)
    qed
  qed
qed

lemma next_request_Inr:
  "next_request (Integral lo) (Num (Integral hi)) ig = Inr r \<Longrightarrow> r = (lo, hi - lo, ignoreSet_of ig)"
  by (cases ig)
     (auto simp: next_request_def ignoreSet_of_def Let_def split: sum.splits if_splits)

lemma next_request_valid:
  assumes "lo < hi" "hi - lo \<le> 2 ^ 32" "exclusion_input ig"
    "excluded_count lo hi (members ig) < hi - lo"
  shows "next_request (Integral lo) (Num (Integral hi)) ig = Inr (lo, hi - lo, ignoreSet_of ig)"
proof -
  have wf: "well_formed ig" using assms(3)
    by (cases ig) (simp_all add: well_formed_def exclusion_input_def)
  have "draw_error (Integral lo) (Integral hi) ig = None"
    using assms by (cases ig) (simp_all add: draw_error_def exclusion_input_def members_def)
  with next_request_error [OF wf, of "Integral lo" "Integral hi"]
  have no: "\<And>e. next_request (Integral lo) (Num (Integral hi)) ig \<noteq> Inl e" by simp
  show ?thesis
  proof (cases "next_request (Integral lo) (Num (Integral hi)) ig")
    case (Inl e)
    with no [of e] show ?thesis by simp
  next
    case (Inr r)
    with next_request_Inr [OF Inr] show ?thesis by simp
  qed
qed

lemma candidate_in_range:
  "0 < rng \<Longrightarrow> mn \<le> mn + uint (w :: 32 word) mod rng \<and> mn + uint w mod rng < mn + rng"
  by simp

lemma set_ignoreSet_of:
  "ignoreSet_of ig = Some s \<Longrightarrow> set s = set (members ig)"
  by (cases ig) (auto simp: ignoreSet_of_def members_def set_new_Set)

lemma passes_not_member:
  "passes mn rng (ignoreSet_of ig) w \<Longrightarrow>
     Integral (to_double (mn + uint w mod rng)) \<notin> set (members ig)"
  by (cases ig) (auto simp: passes_def ignoreSet_of_def members_def set_new_Set)

lemma session_ok_fresh: "session_ok (createSecureRandomGenerator, p)"
  by (simp add: session_ok_def createSecureRandomGenerator_def)

lemma pending_fresh: "pending src (createSecureRandomGenerator, p) k = src (p + k)"
  by (simp add: pending_def createSecureRandomGenerator_def)

lemma maxSafe_1: "maxSafe 1 = 2 ^ 32"
  by (simp add: maxSafe_def)

lemma passes_range_1: "passes 0 1 None w"
proof -
  have "uint w < 2 ^ 32" using uint_lt2p [of w] by simp
  then show ?thesis by (simp add: passes_def maxSafe_1)
qed

lemma secureRandomNumber_valid:
  assumes "lo < hi" "hi - lo \<le> 2 ^ 32" "exclusion_input ig"
    "excluded_count lo hi (members ig) < hi - lo"
  shows "secureRandomNumber src (Integral lo) (Num (Integral hi)) ig p =
           (case secureRandomNumber_loop src lo (hi - lo) (ignoreSet_of ig) p of
              None \<Rightarrow> None | Some (v, p') \<Rightarrow> Some (Inr v, p'))"
  by (simp add: secureRandomNumber_def request_same next_request_valid [OF assms])

lemma gen_next_valid:
  assumes "lo < hi" "hi - lo \<le> 2 ^ 32" "exclusion_input ig"
    "excluded_count lo hi (members ig) < hi - lo"
  shows "gen_next src (Integral lo) (Num (Integral hi)) ig st =
           (case next_loop src lo (hi - lo) (ignoreSet_of ig) st of
              None \<Rightarrow> None | Some (v, st') \<Rightarrow> Some (Inr v, st'))"
  by (simp add: gen_next_def next_request_valid [OF assms])

text \<open>
  The draw within the integers a double holds exactly. For integers \<open>lo < hi\<close> with
  \<open>-2^53 \<le> lo\<close>, \<open>hi \<le> 2^53\<close> and \<open>hi - lo \<le> 2^32\<close>, and an exclusion input whose
  integer members inside \<open>[lo, hi)\<close> number fewer than \<open>hi - lo\<close>: every value returned
  by \<open>secureRandomNumber(lo, hi, ig)\<close> or by a session's \<open>next(lo, hi, ig)\<close> is an
  integer \<open>v\<close> with \<open>lo \<le> v < hi\<close> that is not excluded, and it is
  \<open>lo + raw mod (hi - lo)\<close> for the first raw word with
  \<open>raw < 2^32 - 2^32 mod (hi - lo)\<close> and \<open>lo + raw mod (hi - lo)\<close> not excluded, of the
  word sequence read (the source's words for the one-shot draw, the session's pending
  words for a session; for a new session these are the source's words, lemma
  \<open>pending_fresh\<close>). Conversely the draw returns as soon as such a word exists. The
  draw \<open>(0, 1)\<close> returns 0 after one word, whatever the source delivers.
\<close>

lemma draw_correct_safe:
  assumes "lo < hi" "hi - lo \<le> 2 ^ 32" "exclusion_input ig"
    "excluded_count lo hi (members ig) < hi - lo" "session_ok st"
    "- (2 ^ 53) \<le> lo" "hi \<le> 2 ^ 53"
  shows
    "(\<forall>r p'. secureRandomNumber src (Integral lo) (Num (Integral hi)) ig p = Some (r, p') \<longrightarrow>
        (\<exists>v k. r = Inr v \<and> lo \<le> v \<and> v < hi \<and> Integral v \<notin> set (members ig) \<and>
               first_accepted lo (hi - lo) (ignoreSet_of ig) (\<lambda>j. src (p + j)) k \<and>
               v = lo + uint (src (p + k)) mod (hi - lo) \<and> p' = p + k + 1)) \<and>
     (\<forall>r st'. gen_next src (Integral lo) (Num (Integral hi)) ig st = Some (r, st') \<longrightarrow>
        (\<exists>v k. r = Inr v \<and> lo \<le> v \<and> v < hi \<and> Integral v \<notin> set (members ig) \<and>
               first_accepted lo (hi - lo) (ignoreSet_of ig) (pending src st) k \<and>
               v = lo + uint (pending src st k) mod (hi - lo) \<and>
               st' = (consume src ^^ Suc k) st)) \<and>
     (\<forall>k. first_accepted lo (hi - lo) (ignoreSet_of ig) (\<lambda>j. src (p + j)) k \<longrightarrow>
        secureRandomNumber src (Integral lo) (Num (Integral hi)) ig p =
          Some (Inr (lo + uint (src (p + k)) mod (hi - lo)), p + k + 1)) \<and>
     (\<forall>k. first_accepted lo (hi - lo) (ignoreSet_of ig) (pending src st) k \<longrightarrow>
        gen_next src (Integral lo) (Num (Integral hi)) ig st =
          Some (Inr (lo + uint (pending src st k) mod (hi - lo)), (consume src ^^ Suc k) st)) \<and>
     secureRandomNumber src (Integral 0) (Num (Integral 1)) Undefined p = Some (Inr 0, p + 1) \<and>
     gen_next src (Integral 0) (Num (Integral 1)) Undefined st = Some (Inr 0, consume src st)"
proof (intro conjI allI impI)
  note valid = assms(1-4)
  have pos: "0 < hi - lo" using assms(1) by simp
  have top: "lo + (hi - lo) \<le> 2 ^ 53" using assms(7) by simp
  note exact = candidate_exact [OF pos assms(6) top]
  note fp = first_passing_accepted [OF pos assms(6) top]
  { fix r p'
    assume "secureRandomNumber src (Integral lo) (Num (Integral hi)) ig p = Some (r, p')"
    then obtain v where r: "r = Inr v"
      and loop: "secureRandomNumber_loop src lo (hi - lo) (ignoreSet_of ig) p = Some (v, p')"
      by (auto simp: secureRandomNumber_valid [OF valid] split: option.splits)
    from secureRandomNumber_loop_Some [OF loop] obtain k where
      k: "first_passing lo (hi - lo) (ignoreSet_of ig) (\<lambda>j. src (p + j)) k"
         "v = to_double (lo + uint (src (p + k)) mod (hi - lo))" "p' = p + k + 1"
      by auto
    from k(1) have "Integral v \<notin> set (members ig)"
      unfolding k(2) by (intro passes_not_member) (simp add: first_passing_def)
    moreover from k(2) have v: "v = lo + uint (src (p + k)) mod (hi - lo)"
      by (simp only: exact)
    moreover have "lo \<le> v \<and> v < hi"
      using candidate_in_range [OF pos, of lo "src (p + k)"] v by simp
    moreover from k(1) have "first_accepted lo (hi - lo) (ignoreSet_of ig) (\<lambda>j. src (p + j)) k"
      by (simp only: fp)
    ultimately show "\<exists>v k. r = Inr v \<and> lo \<le> v \<and> v < hi \<and> Integral v \<notin> set (members ig) \<and>
               first_accepted lo (hi - lo) (ignoreSet_of ig) (\<lambda>j. src (p + j)) k \<and>
               v = lo + uint (src (p + k)) mod (hi - lo) \<and> p' = p + k + 1"
      using r k(3) by blast }
  { fix r st'
    assume "gen_next src (Integral lo) (Num (Integral hi)) ig st = Some (r, st')"
    then obtain v where r: "r = Inr v"
      and loop: "next_loop src lo (hi - lo) (ignoreSet_of ig) st = Some (v, st')"
      by (auto simp: gen_next_valid [OF valid] split: option.splits)
    from next_loop_Some [OF loop] assms(5) obtain k where
      k: "first_passing lo (hi - lo) (ignoreSet_of ig) (pending src st) k"
         "v = to_double (lo + uint (pending src st k) mod (hi - lo))"
         "st' = (consume src ^^ Suc k) st"
      by auto
    from k(1) have "Integral v \<notin> set (members ig)"
      unfolding k(2) by (intro passes_not_member) (simp add: first_passing_def)
    moreover from k(2) have v: "v = lo + uint (pending src st k) mod (hi - lo)"
      by (simp only: exact)
    moreover have "lo \<le> v \<and> v < hi"
      using candidate_in_range [OF pos, of lo "pending src st k"] v by simp
    moreover from k(1) have "first_accepted lo (hi - lo) (ignoreSet_of ig) (pending src st) k"
      by (simp only: fp)
    ultimately show "\<exists>v k. r = Inr v \<and> lo \<le> v \<and> v < hi \<and> Integral v \<notin> set (members ig) \<and>
               first_accepted lo (hi - lo) (ignoreSet_of ig) (pending src st) k \<and>
               v = lo + uint (pending src st k) mod (hi - lo) \<and>
               st' = (consume src ^^ Suc k) st"
      using r k(3) by blast }
  { fix k
    assume "first_accepted lo (hi - lo) (ignoreSet_of ig) (\<lambda>j. src (p + j)) k"
    then have "first_passing lo (hi - lo) (ignoreSet_of ig) (\<lambda>j. src (p + j)) k"
      by (simp only: fp)
    from secureRandomNumber_loop_first [OF this]
    show "secureRandomNumber src (Integral lo) (Num (Integral hi)) ig p =
          Some (Inr (lo + uint (src (p + k)) mod (hi - lo)), p + k + 1)"
      by (simp add: secureRandomNumber_valid [OF valid] exact) }
  { fix k
    assume "first_accepted lo (hi - lo) (ignoreSet_of ig) (pending src st) k"
    then have "first_passing lo (hi - lo) (ignoreSet_of ig) (pending src st) k"
      by (simp only: fp)
    from next_loop_first [OF assms(5) this]
    show "gen_next src (Integral lo) (Num (Integral hi)) ig st =
          Some (Inr (lo + uint (pending src st k) mod (hi - lo)), (consume src ^^ Suc k) st)"
      by (simp add: gen_next_valid [OF valid] exact) }
  have req: "next_request (Integral 0) (Num (Integral 1)) Undefined = Inr (0, 1, None)"
    by (simp add: next_request_def)
  show "secureRandomNumber src (Integral 0) (Num (Integral 1)) Undefined p = Some (Inr 0, p + 1)"
    using secureRandomNumber_loop_first [of 0 1 None src p 0] passes_range_1
    by (simp add: secureRandomNumber_def request_same req first_passing_def to_double_exact)
  show "gen_next src (Integral 0) (Num (Integral 1)) Undefined st = Some (Inr 0, consume src st)"
    using next_loop_first [OF assms(5), of 0 1 None src 0] passes_range_1
    by (simp add: gen_next_def req first_passing_def to_double_exact)
qed

text \<open>
  An instance: the range \<open>[50, 150)\<close> with 55, 60 and 65 excluded, on a source whose
  first word is 5 and whose later words are 7. The word 5 gives the excluded 55 and is
  skipped; the word 7 gives 57.
\<close>

lemma draw_correct_safe_example:
  "secureRandomNumber (\<lambda>i. if i = 0 then 5 else 7) (Integral 50) (Num (Integral 150))
      (Iter [Integral 55, Integral 60, Integral 65]) 0 = Some (Inr 57, 2) \<and>
   map_option fst (gen_next (\<lambda>i. if i = 0 then 5 else 7) (Integral 50) (Num (Integral 150))
      (Iter [Integral 55, Integral 60, Integral 65]) (createSecureRandomGenerator, 0)) =
     Some (Inr 57)"
proof -
  let ?src = "\<lambda>i::nat. if i = 0 then 5 else (7 :: 32 word)"
  let ?ig = "Iter [Integral 55, Integral 60, Integral 65]"
  have h3: "exclusion_input ?ig" by (simp add: exclusion_input_def)
  have h4: "excluded_count 50 150 (members ?ig) < 150 - 50"
    by (simp add: excluded_count_def members_def excluded_in_range_def)
  have fa: "first_accepted 50 (150 - 50) (ignoreSet_of ?ig) (\<lambda>j. ?src (0 + j)) 1"
    by (simp add: first_accepted_def accepted_def ignoreSet_of_def new_Set_def)
  have fb: "first_accepted 50 (150 - 50) (ignoreSet_of ?ig)
              (pending ?src (createSecureRandomGenerator, 0)) 1"
    using fa by (simp add: pending_fresh [abs_def])
  from draw_correct_safe [of 50 150 ?ig "(createSecureRandomGenerator, 0)" ?src 0,
      OF _ _ h3 h4 session_ok_fresh] fa fb
  show ?thesis by (simp add: pending_fresh)
qed

lemma to_double_tie_up: "to_double (2 ^ 53 + 3) = 2 ^ 53 + 4"
  by (simp add: to_double_def bit_length_eq [of 53])

lemma to_double_tie_down: "to_double (2 ^ 53 + 1) = 2 ^ 53"
  by (simp add: to_double_def bit_length_eq [of 53])

lemma to_double_stuck: "to_double (2 ^ 53 + uint (w :: 32 word) mod 2) = 2 ^ 53"
proof -
  have "uint w mod 2 = 0 \<or> uint w mod 2 = 1" by auto
  then show ?thesis
    using to_double_tie_down to_double_exact [of "2 ^ 53"] by auto
qed

text \<open>
  Claim C1. The claim speaks of every pair of integers \<open>min < max\<close> with
  \<open>max - min \<le> 2^32\<close>. Beyond \<open>2^53\<close> the code does not return what the claim says:
  the candidate \<open>min + (raw % range)\<close> is a sum of doubles and is rounded. For
  \<open>min = 2^53\<close>, \<open>max = 2^53 + 4\<close> and the raw word 3 (below the threshold
  \<open>2^32 - 2^32 mod 4 = 2^32\<close>, nothing excluded) both draws return \<open>2^53 + 4\<close>, the
  excluded upper bound \<open>max\<close> itself, where the claim says \<open>min + 3\<close>, a value of
  \<open>[min, max)\<close>. For \<open>min = 2^53\<close>, \<open>max = 2^53 + 2\<close> and the exclusion \<open>[2^53]\<close> (one
  excluded value in a range of two) every candidate rounds to the excluded \<open>2^53\<close>:
  the one-shot draw returns on no entropy source. Within \<open>[-2^53, 2^53]\<close> the draws
  do what the claim says (lemma \<open>draw_correct_safe\<close>).
\<close>

theorem draw_rounds_beyond_safe_integers:
  "secureRandomNumber (\<lambda>i. 3) (Integral (2 ^ 53)) (Num (Integral (2 ^ 53 + 4))) Undefined 0 =
     Some (Inr (2 ^ 53 + 4), 1) \<and>
   map_option fst (gen_next (\<lambda>i. 3) (Integral (2 ^ 53)) (Num (Integral (2 ^ 53 + 4))) Undefined
      (createSecureRandomGenerator, 0)) = Some (Inr (2 ^ 53 + 4)) \<and>
   (\<forall>src p. secureRandomNumber src (Integral (2 ^ 53)) (Num (Integral (2 ^ 53 + 2)))
      (Iter [Integral (2 ^ 53)]) p = None)"
proof (intro conjI allI)
  have req: "next_request (Integral (2 ^ 53)) (Num (Integral (2 ^ 53 + 4))) Undefined =
      Inr (2 ^ 53, 4, None)"
    by (simp add: next_request_def)
  have p3: "passes (2 ^ 53) 4 None (3 :: 32 word)"
    by (simp add: passes_def maxSafe_def)
  have c3: "to_double (2 ^ 53 + uint (3 :: 32 word) mod 4) = 2 ^ 53 + 4"
    using to_double_tie_up by simp
  show "secureRandomNumber (\<lambda>i. 3) (Integral (2 ^ 53)) (Num (Integral (2 ^ 53 + 4))) Undefined 0 =
     Some (Inr (2 ^ 53 + 4), 1)"
    using p3 c3 req secureRandomNumber_loop_unfold [of "\<lambda>i. 3" "2 ^ 53" 4 None 0]
    by (simp add: secureRandomNumber_def request_same)
  show "map_option fst (gen_next (\<lambda>i. 3) (Integral (2 ^ 53)) (Num (Integral (2 ^ 53 + 4)))
      Undefined (createSecureRandomGenerator, 0)) = Some (Inr (2 ^ 53 + 4))"
    using p3 c3 req next_loop_unfold [OF session_ok_fresh, of "\<lambda>i. 3" "2 ^ 53" 4 None 0]
    by (simp add: gen_next_def pending_fresh)
next
  fix src p
  have req: "next_request (Integral (2 ^ 53)) (Num (Integral (2 ^ 53 + 2)))
      (Iter [Integral (2 ^ 53)]) = Inr (2 ^ 53, 2, Some [Integral (2 ^ 53)])"
    by (simp add: next_request_def new_Set_def)
  have no: "\<not> passes (2 ^ 53) 2 (Some [Integral (2 ^ 53)]) w" for w
    using to_double_stuck [of w] by (simp add: passes_def)
  have "secureRandomNumber_loop src (2 ^ 53) 2 (Some [Integral (2 ^ 53)]) p = None"
  proof (cases "secureRandomNumber_loop src (2 ^ 53) 2 (Some [Integral (2 ^ 53)]) p")
    case (Some r)
    from secureRandomNumber_loop_Some [OF Some] no show ?thesis
      by (auto simp: first_passing_def)
  qed simp
  with req show "secureRandomNumber src (Integral (2 ^ 53)) (Num (Integral (2 ^ 53 + 2)))
      (Iter [Integral (2 ^ 53)]) p = None"
    by (simp add: secureRandomNumber_def request_same)
qed



section \<open>The two draw modes\<close>










lemma overload_single:
  "(\<forall>n. ig \<noteq> Num n) \<Longrightarrow> next_request mx ig c = next_request (Integral 0) (Num mx) ig"
  by (cases ig) (simp_all add: next_request_def)



section \<open>Properties of the shuffle\<close>

lemma maxSafe_lower:
  assumes "0 < rng" "rng \<le> 2 ^ 32"
  shows "2 ^ 31 < maxSafe rng"
proof -
  have m1: "(2 ^ 32 :: int) mod rng < rng" using assms(1) by simp
  have "0 < (2 ^ 32 :: int) div rng" using assms
    by (simp add: pos_imp_zdiv_pos_iff)
  then have "(2 ^ 32 :: int) div rng \<ge> 1" by simp
  then have "rng * 1 \<le> rng * (2 ^ 32 div rng)" using assms(1)
    by (intro mult_left_mono) simp_all
  moreover have "(2 ^ 32 :: int) = rng * (2 ^ 32 div rng) + 2 ^ 32 mod rng" by simp
  ultimately have m2: "(2 ^ 32 :: int) mod rng \<le> 2 ^ 32 - rng" by linarith
  from m1 m2 have "2 * ((2 ^ 32 :: int) mod rng) < 2 ^ 32" by linarith
  then show ?thesis by (simp add: maxSafe_def)
qed

lemma fair_pending:
  assumes "fair src" "session_ok st" "0 < rng" "rng \<le> 2 ^ 32"
  shows "\<exists>k. first_passing mn rng None (pending src st) k"
proof -
  from assms(1) obtain k where k: "uint (src (snd st + k)) < 2 ^ 31"
    unfolding fair_def by blast
  let ?n = "BUFFER_SIZE - index (fst st) + k"
  from assms(2) have "pending src st ?n = src (snd st + k)"
    by (simp add: pending_def session_ok_def)
  with k maxSafe_lower [OF assms(3,4)] have "passes mn rng None (pending src st ?n)"
    by (simp add: passes_def)
  from first_passing_exists [of mn rng None "pending src st", OF this] show ?thesis by blast
qed

lemma session_ok_funpow: "session_ok st \<Longrightarrow> session_ok ((consume src ^^ n) st)"
  by (induction n) (simp_all add: session_ok_consume)

lemma next_request_single:
  "0 < n \<Longrightarrow> n \<le> 2 ^ 32 \<Longrightarrow> next_request (Integral n) Undefined Undefined = Inr (0, n, None)"
  by (simp add: next_request_def)

lemma gen_next_single_Some:
  assumes "gen_next src (Integral n) Undefined Undefined st = Some (r, st')"
    "session_ok st" "0 < n" "n \<le> 2 ^ 32"
  shows "\<exists>j. r = Inr j \<and> 0 \<le> j \<and> j < n \<and> session_ok st'"
proof -
  from assms(1) obtain j where r: "r = Inr j" and loop: "next_loop src 0 n None st = Some (j, st')"
    by (auto simp: gen_next_def next_request_single [OF assms(3,4)] split: option.splits)
  from next_loop_Some [OF loop] assms(2) obtain k where
    "j = to_double (0 + uint (pending src st k) mod n)" "st' = (consume src ^^ Suc k) st" by auto
  moreover have "to_double (0 + uint w mod n) = 0 + uint w mod n" for w :: "32 word"
    using assms(3,4) by (intro candidate_exact) simp_all
  ultimately show ?thesis
    using assms(2,3) r session_ok_funpow [OF assms(2), where src = src and n = "Suc k"] by simp
qed

lemma gen_next_single_returns:
  assumes "fair src" "session_ok st" "0 < n" "n \<le> 2 ^ 32"
  shows "\<exists>r st'. gen_next src (Integral n) Undefined Undefined st = Some (r, st')"
proof -
  from fair_pending [OF assms, of 0] obtain k where "first_passing 0 n None (pending src st) k" ..
  from next_loop_first [OF assms(2) this] show ?thesis
    by (simp add: gen_next_def next_request_single [OF assms(3,4)])
qed


lemma gen_next_single_overload:
  "gen_next src (Integral n) Undefined Undefined st =
     gen_next src (Integral 0) (Num (Integral n)) Undefined st"
  by (simp add: gen_next_def overload_single)

lemma mset_swap_step:
  "i < length xs \<Longrightarrow> j < length xs \<Longrightarrow> mset (xs[i := xs ! j, j := xs ! i]) = mset xs"
  by (rule mset_swap)

lemma shuffle_loop_Some:
  assumes "shuffle_loop src i array (h, st) = Some (r, h', st')"
    "session_ok st" "i < length (h array) \<or> i = 0" "int i + 1 \<le> 2 ^ 32"
  shows "r = Inr () \<and> session_ok st' \<and> h' = h(array := h' array) \<and>
         mset (h' array) = mset (h array) \<and>
         fisher_yates src i (h array) st = Some (Inr (h' array), st')"
  using assms
proof (induction i arbitrary: h st)
  case 0
  then show ?case by auto
next
  case (Suc i)
  let ?n = "int (Suc i) + 1"
  from Suc.prems(3) have len: "Suc i < length (h array)" by simp
  from Suc.prems(4) have n: "0 < ?n" "?n \<le> 2 ^ 32" by simp_all
  from Suc.prems(1) obtain q st1 where
    g: "gen_next src (Integral ?n) Undefined Undefined st = Some (q, st1)"
    by (cases "gen_next src (Integral ?n) Undefined Undefined st") auto
  from gen_next_single_Some [OF g Suc.prems(2) n] obtain j where
    j: "q = Inr j" "0 \<le> j" "j < ?n" "session_ok st1" by blast
  let ?h1 = "h(array := (h array)[Suc i := h array ! nat j, nat j := h array ! Suc i])"
  from j(2,3) len have jlen: "nat j < length (h array)" by simp
  from Suc.prems(1) g j(1) have rec: "shuffle_loop src i array (?h1, st1) = Some (r, h', st')"
    by simp
  have "i < length (?h1 array) \<or> i = 0" using len by simp
  moreover have "int i + 1 \<le> 2 ^ 32" using Suc.prems(4) by simp
  ultimately have IH: "r = Inr () \<and> session_ok st' \<and> h' = ?h1(array := h' array) \<and>
         mset (h' array) = mset (?h1 array) \<and>
         fisher_yates src i (?h1 array) st1 = Some (Inr (h' array), st')"
    using Suc.IH [OF rec j(4)] by blast
  have ms: "mset (?h1 array) = mset (h array)"
    using mset_swap_step [OF len jlen] by simp
  have fy: "fisher_yates src (Suc i) (h array) st = fisher_yates src i (?h1 array) st1"
    using g j(1) by (simp add: gen_next_single_overload [symmetric] swap_def)
  have hh: "?h1(array := h' array) = h(array := h' array)" by simp
  from IH have "h' = ?h1(array := h' array)" by blast
  with hh have upd: "h' = h(array := h' array)" by (simp only:)
  from IH ms have "mset (h' array) = mset (h array)" by (simp only:)
  moreover from IH fy have "fisher_yates src (Suc i) (h array) st = Some (Inr (h' array), st')"
    by (simp only:)
  moreover from IH have "r = Inr ()" "session_ok st'" by blast+
  ultimately show ?case using upd by blast
qed

lemma fisher_yates_Some:
  assumes "fisher_yates src i (h array) st = Some (r, st')"
    "session_ok st" "i < length (h array) \<or> i = 0" "int i + 1 \<le> 2 ^ 32"
  shows "\<exists>xs'. r = Inr xs' \<and>
           shuffle_loop src i array (h, st) = Some (Inr (), h(array := xs'), st')"
  using assms
proof (induction i arbitrary: h st)
  case 0
  then show ?case by (intro exI [of _ "h array"]) auto
next
  case (Suc i)
  let ?n = "int (Suc i) + 1"
  from Suc.prems(3) have len: "Suc i < length (h array)" by simp
  from Suc.prems(4) have n: "0 < ?n" "?n \<le> 2 ^ 32" by simp_all
  from Suc.prems(1) obtain q st1 where
    g: "gen_next src (Integral ?n) Undefined Undefined st = Some (q, st1)"
    by (cases "gen_next src (Integral ?n) Undefined Undefined st")
       (auto simp: gen_next_single_overload [symmetric])
  from gen_next_single_Some [OF g Suc.prems(2) n] obtain j where
    j: "q = Inr j" "0 \<le> j" "j < ?n" "session_ok st1" by blast
  let ?h1 = "h(array := (h array)[Suc i := h array ! nat j, nat j := h array ! Suc i])"
  from Suc.prems(1) g j(1) have rec: "fisher_yates src i (?h1 array) st1 = Some (r, st')"
    by (simp add: gen_next_single_overload [symmetric] swap_def)
  have "i < length (?h1 array) \<or> i = 0" using len by simp
  moreover have "int i + 1 \<le> 2 ^ 32" using Suc.prems(4) by simp
  ultimately obtain xs' where
    IH: "r = Inr xs'" "shuffle_loop src i array (?h1, st1) = Some (Inr (), ?h1(array := xs'), st')"
    using Suc.IH [of ?h1 st1, OF rec j(4)] by blast
  have "shuffle_loop src (Suc i) array (h, st) = shuffle_loop src i array (?h1, st1)"
    using g j(1) by simp
  with IH(2) have "shuffle_loop src (Suc i) array (h, st) = Some (Inr (), h(array := xs'), st')"
    by (simp only: fun_upd_upd)
  with IH(1) show ?case by blast
qed

lemma shuffle_loop_returns:
  assumes "fair src" "session_ok st" "int i + 1 \<le> 2 ^ 32"
  shows "\<exists>res. shuffle_loop src i array (h, st) = Some res"
  using assms(2,3)
proof (induction i arbitrary: h st)
  case 0
  then show ?case by simp
next
  case (Suc i)
  let ?n = "int (Suc i) + 1"
  from Suc.prems(2) have n: "0 < ?n" "?n \<le> 2 ^ 32" by simp_all
  from gen_next_single_returns [OF assms(1) Suc.prems(1) n] obtain q st1 where
    g: "gen_next src (Integral ?n) Undefined Undefined st = Some (q, st1)" by blast
  from gen_next_single_Some [OF g Suc.prems(1) n] obtain j where
    j: "q = Inr j" "session_ok st1" by blast
  let ?h1 = "h(array := (h array)[Suc i := h array ! nat j, nat j := h array ! Suc i])"
  have "int i + 1 \<le> 2 ^ 32" using Suc.prems(2) by simp
  from Suc.IH [OF j(2) this, of ?h1] obtain res where
    "shuffle_loop src i array (?h1, st1) = Some res" ..
  with g j(1) show ?case by (intro exI [of _ res]) simp
qed

lemma session_ok_session_of:
  "(case generator of Some g \<Rightarrow> session_ok (g, p) | None \<Rightarrow> True) \<Longrightarrow>
     session_ok (session_of generator, p)"
  by (cases generator) (simp_all add: session_of_def session_ok_fresh)

lemma secureShuffle_unfold:
  "secureShuffle src array generator (h, p) =
     (case shuffle_loop src (length (h array) - 1) array (h, session_of generator, p) of
        None \<Rightarrow> None
      | Some (Inl e, h', gen', p') \<Rightarrow> Some (Inl e, h', session_after generator gen', p')
      | Some (Inr _, h', gen', p') \<Rightarrow> Some (Inr array, h', session_after generator gen', p'))"
  unfolding secureShuffle_def session_of_def session_after_def Let_def fst_conv snd_conv
  by (rule refl)

text \<open>
  Claim C4. For an array within the length bound of JavaScript arrays and a session
  that satisfies the session invariant (a new one does): \<open>secureShuffle\<close> does on the
  stored array exactly what Fisher-Yates does on its contents, drawing
  \<open>j = next(0, i + 1)\<close> for \<open>i\<close> from \<open>length - 1\<close> down to 1 from the session supplied or
  from a new one. It returns the reference it was given; only that array changes;
  the new contents are a permutation of the old (the same multiset). An array of
  length 0 or 1 is returned unchanged, the session and the number of words fetched
  untouched. On a fair entropy source the call returns.
\<close>

theorem secureShuffle_correct:
  assumes "length (h array) \<le> 2 ^ 32"
    and "case generator of Some g \<Rightarrow> session_ok (g, p) | None \<Rightarrow> True"
  shows
    "(fisher_yates src (length (h array) - 1) (h array) (session_of generator, p) = None \<longrightarrow>
        secureShuffle src array generator (h, p) = None) \<and>
     (\<forall>r gen' p'.
        fisher_yates src (length (h array) - 1) (h array) (session_of generator, p) =
          Some (r, gen', p') \<longrightarrow>
        (\<exists>xs'. r = Inr xs' \<and> mset xs' = mset (h array) \<and>
           secureShuffle src array generator (h, p) =
             Some (Inr array, h(array := xs'), session_after generator gen', p'))) \<and>
     (length (h array) \<le> 1 \<longrightarrow>
        secureShuffle src array generator (h, p) = Some (Inr array, h, generator, p)) \<and>
     (fair src \<longrightarrow> secureShuffle src array generator (h, p) \<noteq> None)"
proof (intro conjI allI impI)
  let ?i = "length (h array) - 1"
  let ?st = "(session_of generator, p)"
  note ok = session_ok_session_of [OF assms(2)]
  have i: "?i < length (h array) \<or> ?i = 0" by auto
  have b: "int ?i + 1 \<le> 2 ^ 32" using assms(1) by (cases "length (h array)") simp_all
  { assume none: "fisher_yates src ?i (h array) ?st = None"
    show "secureShuffle src array generator (h, p) = None"
    proof (cases "shuffle_loop src ?i array (h, ?st)")
      case None
      then show ?thesis by (simp add: secureShuffle_unfold)
    next
      case (Some res)
      obtain r h' st' where "res = (r, h', st')" by (cases res)
      with Some have sl: "shuffle_loop src ?i array (h, ?st) = Some (r, h', st')" by simp
      from shuffle_loop_Some [OF sl ok i b] none show ?thesis by simp
    qed }
  { fix r gen' p'
    assume fy: "fisher_yates src ?i (h array) ?st = Some (r, gen', p')"
    from fisher_yates_Some [where h = h and array = array, OF fy ok i b] obtain xs' where
      xs: "r = Inr xs'"
          "shuffle_loop src ?i array (h, ?st) = Some (Inr (), h(array := xs'), gen', p')"
      by blast
    from shuffle_loop_Some [OF xs(2) ok i b] have "mset xs' = mset (h array)" by simp
    with xs show "\<exists>xs'. r = Inr xs' \<and> mset xs' = mset (h array) \<and>
           secureShuffle src array generator (h, p) =
             Some (Inr array, h(array := xs'), session_after generator gen', p')"
      by (simp add: secureShuffle_unfold) }
  { assume "length (h array) \<le> 1"
    then have "?i = 0" by simp
    then show "secureShuffle src array generator (h, p) = Some (Inr array, h, generator, p)"
      by (cases generator) (simp_all add: secureShuffle_unfold session_after_def session_of_def) }
  { assume "fair src"
    from shuffle_loop_returns [OF this ok b, of array h] obtain res where
      "shuffle_loop src ?i array (h, ?st) = Some res" ..
    then show "secureShuffle src array generator (h, p) \<noteq> None"
      by (auto simp: secureShuffle_unfold split: sum.splits prod.splits) }
qed

theorem secureShuffle_correct_witness:
  "secureShuffle (\<lambda>i. of_nat i) 0 None ((\<lambda>_. [])(0 := ''abc''), 0) =
     Some (Inr 0, (\<lambda>_. [])(0 := ''cba''), None, 256)"
proof -
  let ?src = "\<lambda>i::nat. of_nat i :: 32 word"
  let ?h = "(\<lambda>_. [])(0 := ''abc'')"
  have fy: "fisher_yates ?src (length (?h (0::nat)) - 1) (?h 0) (session_of None, 0) =
      Some (Inr ''cba'', \<lparr>buffer = map ?src [0..<256], index = 2\<rparr>, 256)"
    by (simp add: session_of_def createSecureRandomGenerator_def gen_next_def next_request_def
          next_loop_unfold session_ok_def pending_def consume_def refillBuffer_def
          getRandomValues_def BUFFER_SIZE_def passes_def maxSafe_def to_double_exact swap_def numeral_2_eq_2)
  from secureShuffle_correct [where h = ?h and array = 0 and generator = None and p = 0
      and src = ?src] fy show ?thesis
    by (simp add: session_after_def)
qed

section \<open>Properties of the string generator\<close>

declare digits36.simps [simp del]

text \<open>
  The example of the README: the timestamp of 2023-01-01T00:00:00Z starts the token
  with \<open>lcclw5\<close>.
\<close>

lemma getTime_toString36_example: "getTime_toString36 (Date 1672531200000) = ''lcclw5c0''"
  by (simp add: getTime_toString36_def digits36.simps [of "numeral _"] digit36_def)

lemma digits36_nonempty: "digits36 n \<noteq> []"
  by (subst digits36.simps) simp

lemma getTime_toString36_nonempty: "getTime_toString36 d \<noteq> []"
  by (cases d) (simp_all add: getTime_toString36_def digits36_nonempty)

lemma timestamp_string_empty: "(timestamp_string now ts = []) = (ts = None)"
  by (cases ts; simp add: timestamp_string_def getTime_toString36_nonempty split: timestamp.splits)



































lemma secureGenerate_unfold:
  assumes "resolve_options arg = (len, u, l, n, s, ts)"
  shows "secureGenerate src now arg p =
     (if len < 1 then Some (Inl TypeError_length, p)
      else if ts \<noteq> None \<and> len \<le> int (length (timestamp_string now ts))
      then Some (Inl (Error_timestamp_length (length (timestamp_string now ts))), p)
      else
        (case generate src len (timestamp_string now ts) u l n s (createSecureRandomGenerator, p) of
           None \<Rightarrow> None
         | Some (r, random', p') \<Rightarrow> Some (r, p')))"
  by (simp add: secureGenerate_def assms Let_def timestamp_string_empty)











lemma add_class_disabled:
  "class_alphabet sel d = [] \<Longrightarrow> d \<noteq> [] \<Longrightarrow> add_class src sel d acc st = Some (Inr acc, st)"
  by (cases sel) (auto simp: class_alphabet_def add_class_def shouldIncludeSet_def return_def
        split: if_splits)

lemma default_alphabets_nonempty:
  "DEFAULT_UPPERCASE \<noteq> []" "DEFAULT_LOWERCASE \<noteq> []" "DEFAULT_NUMBERS \<noteq> []"
  "DEFAULT_SPECIALS \<noteq> []"
  by (simp_all add: DEFAULT_UPPERCASE_def DEFAULT_LOWERCASE_def DEFAULT_NUMBERS_def
        DEFAULT_SPECIALS_def)

lemma generate_no_classes:
  assumes "enabled_alphabets u l n s = []"
  shows "generate src len ts u l n s st = Some (Inl Error_no_character_types, st)"
proof -
  from assms have "class_alphabet u DEFAULT_UPPERCASE = []" "class_alphabet l DEFAULT_LOWERCASE = []"
    "class_alphabet n DEFAULT_NUMBERS = []" "class_alphabet s DEFAULT_SPECIALS = []"
    by (simp_all add: enabled_alphabets_def)
  then show ?thesis
    by (simp add: generate_def bind_def add_class_disabled default_alphabets_nonempty throw_def)
qed

text \<open>
  Claim C6, as amended. \<open>secureGenerate\<close> checks the length first: a length below 1
  fails with the length error, with or without a timestamp. With a length of at
  least 1, an enabled timestamp whose base-36 string is not shorter than the length
  fails with the timestamp error. When both checks pass and no class is enabled
  (every selector \<open>false\<close> or the empty string), the call fails with the error of no
  character types. None of these failures consumes entropy.
\<close>

theorem secureGenerate_errors:
  assumes "resolve_options arg = (len, u, l, n, s, ts)"
  shows
    "(len < 1 \<longrightarrow> secureGenerate src now arg p = Some (Inl TypeError_length, p)) \<and>
     (1 \<le> len \<and> ts \<noteq> None \<and> len \<le> int (length (timestamp_string now ts)) \<longrightarrow>
        secureGenerate src now arg p =
          Some (Inl (Error_timestamp_length (length (timestamp_string now ts))), p)) \<and>
     (1 \<le> len \<and> (ts = None \<or> int (length (timestamp_string now ts)) < len) \<and>
      enabled_alphabets u l n s = [] \<longrightarrow>
        secureGenerate src now arg p = Some (Inl Error_no_character_types, p))"
  by (auto simp: secureGenerate_unfold [OF assms] generate_no_classes)

lemma timestamp_zero: "timestamp_string now (Some (Timestamp_date (Date 0))) = ''0''"
  by (simp add: timestamp_string_def getTime_toString36_def digits36.simps [of 0] digit36_def)

theorem secureGenerate_errors_witness:
  "secureGenerate (\<lambda>i. 0) 0
     (Some (Options \<lparr>length_opt = Some 1, uppercase = None, lowercase = None, numbers = None,
        specials = None, timestamp = Some (Timestamp_date (Date 0))\<rparr>)) 0 =
     Some (Inl (Error_timestamp_length 1), 0) \<and>
   secureGenerate (\<lambda>i. 0) 0
     (Some (Options \<lparr>length_opt = None, uppercase = Some (Flag False),
        lowercase = Some (Flag False), numbers = Some (Flag False),
        specials = Some (Flag False), timestamp = None\<rparr>)) 0 =
     Some (Inl Error_no_character_types, 0) \<and>
   secureGenerate (\<lambda>i. 0) 0 (Some (Length (- 1))) 0 = Some (Inl TypeError_length, 0)"
proof -
  have r1: "resolve_options
     (Some (Options \<lparr>length_opt = Some 1, uppercase = None, lowercase = None, numbers = None,
        specials = None, timestamp = Some (Timestamp_date (Date 0))\<rparr>)) =
     (1, Flag True, Flag True, Flag True, Flag True, Some (Timestamp_date (Date 0)))"
    by (simp add: resolve_options_def)
  have r2: "resolve_options
     (Some (Options \<lparr>length_opt = None, uppercase = Some (Flag False),
        lowercase = Some (Flag False), numbers = Some (Flag False),
        specials = Some (Flag False), timestamp = None\<rparr>)) =
     (16, Flag False, Flag False, Flag False, Flag False, None)"
    by (simp add: resolve_options_def DEFAULT_LENGTH_def)
  have r3: "resolve_options (Some (Length (- 1))) =
     (- 1, Flag True, Flag True, Flag True, Flag True, None)"
    by (simp add: resolve_options_def)
  from secureGenerate_errors [OF r1, of "\<lambda>i. 0" 0 0] secureGenerate_errors [OF r2, of "\<lambda>i. 0" 0 0]
    secureGenerate_errors [OF r3, of "\<lambda>i. 0" 0 0]
  show ?thesis
    by (simp add: timestamp_zero enabled_alphabets_def class_alphabet_def)
qed

text \<open>
  Claim C6 as stated fails: with the timestamp of time 0 (the string \<open>0\<close>, of length 1)
  and length 0, the error raised is the length error, not the timestamp error.
\<close>

theorem timestamp_check_after_length_check:
  "secureGenerate (\<lambda>i. 0) 0
     (Some (Options \<lparr>length_opt = Some 0, uppercase = None, lowercase = None, numbers = None,
        specials = None, timestamp = Some (Timestamp_date (Date 0))\<rparr>)) 0 =
     Some (Inl TypeError_length, 0) \<and>
   secureGenerate (\<lambda>i. 0) 0
     (Some (Options \<lparr>length_opt = Some 0, uppercase = None, lowercase = None, numbers = None,
        specials = None, timestamp = Some (Timestamp_date (Date 0))\<rparr>)) 0 \<noteq>
     Some (Inl (Error_timestamp_length 1), 0) \<and>
   length (timestamp_string 0 (Some (Timestamp_date (Date 0)))) = 1"
  by (simp add: secureGenerate_def resolve_options_def timestamp_zero)

lemma disabled_selector:
  "class_alphabet (Alphabet []) d = [] \<and> class_alphabet (Flag False) d = []"
  by (simp add: class_alphabet_def)

lemma add_class_empty_string:
  "add_class src (Alphabet []) d acc = add_class src (Flag False) d acc"
  by (simp add: add_class_def shouldIncludeSet_def)

lemma add_class_disable_empty:
  "add_class src (case disable_empty sel of None \<Rightarrow> Flag True | Some s \<Rightarrow> s) d acc =
   add_class src (case sel of None \<Rightarrow> Flag True | Some s \<Rightarrow> s) d acc"
  by (simp add: disable_empty_def add_class_empty_string)

lemma generate_disable_empty:
  "generate src len ts
     (case disable_empty u of None \<Rightarrow> Flag True | Some s \<Rightarrow> s)
     (case disable_empty l of None \<Rightarrow> Flag True | Some s \<Rightarrow> s)
     (case disable_empty n of None \<Rightarrow> Flag True | Some s \<Rightarrow> s)
     (case disable_empty s of None \<Rightarrow> Flag True | Some s \<Rightarrow> s) =
   generate src len ts
     (case u of None \<Rightarrow> Flag True | Some s \<Rightarrow> s)
     (case l of None \<Rightarrow> Flag True | Some s \<Rightarrow> s)
     (case n of None \<Rightarrow> Flag True | Some s \<Rightarrow> s)
     (case s of None \<Rightarrow> Flag True | Some s \<Rightarrow> s)"
  unfolding generate_def add_class_disable_empty by (rule refl)

lemma secureGenerate_disable_empty:
  "secureGenerate src now
     (Some (Options (opts\<lparr>uppercase := disable_empty (uppercase opts),
        lowercase := disable_empty (lowercase opts),
        numbers := disable_empty (numbers opts),
        specials := disable_empty (specials opts)\<rparr>))) p =
   secureGenerate src now (Some (Options opts)) p"
proof -
  let ?len = "case length_opt opts of None \<Rightarrow> DEFAULT_LENGTH | Some n \<Rightarrow> n"
  have r1: "resolve_options (Some (Options (opts\<lparr>uppercase := disable_empty (uppercase opts),
        lowercase := disable_empty (lowercase opts),
        numbers := disable_empty (numbers opts),
        specials := disable_empty (specials opts)\<rparr>))) =
      (?len,
       case disable_empty (uppercase opts) of None \<Rightarrow> Flag True | Some s \<Rightarrow> s,
       case disable_empty (lowercase opts) of None \<Rightarrow> Flag True | Some s \<Rightarrow> s,
       case disable_empty (numbers opts) of None \<Rightarrow> Flag True | Some s \<Rightarrow> s,
       case disable_empty (specials opts) of None \<Rightarrow> Flag True | Some s \<Rightarrow> s,
       timestamp opts)"
    by (simp add: resolve_options_def)
  have r2: "resolve_options (Some (Options opts)) =
      (?len,
       case uppercase opts of None \<Rightarrow> Flag True | Some s \<Rightarrow> s,
       case lowercase opts of None \<Rightarrow> Flag True | Some s \<Rightarrow> s,
       case numbers opts of None \<Rightarrow> Flag True | Some s \<Rightarrow> s,
       case specials opts of None \<Rightarrow> Flag True | Some s \<Rightarrow> s,
       timestamp opts)"
    by (simp add: resolve_options_def)
  show ?thesis
    unfolding secureGenerate_unfold [OF r1] secureGenerate_unfold [OF r2] generate_disable_empty
    by (rule refl)
qed

lemma disabled_class_alphabet:
  "x = Some (Flag False) \<or> x = Some (Alphabet []) \<Longrightarrow>
     class_alphabet (case x of None \<Rightarrow> Flag True | Some s \<Rightarrow> s) d = []"
  by (auto simp: class_alphabet_def)

text \<open>
  Claim C10. A selector that is the empty string is not included: its block adds no
  guaranteed character and nothing to the cumulative alphabet and leaves the session
  as it was (no draw); the whole call equals the call with \<open>false\<close> in place of every
  empty string, in its result and in the entropy it consumes; and when every class
  is disabled by \<open>false\<close> or the empty string (the length checks passing), the call
  fails with the error of no character types.
\<close>

theorem empty_selector_disabled:
  "\<not> shouldIncludeSet (Alphabet []) \<and>
   add_class src (Alphabet []) d acc st = Some (Inr acc, st) \<and>
   secureGenerate src now (Some (Options opts)) p =
     secureGenerate src now
       (Some (Options (opts\<lparr>uppercase := disable_empty (uppercase opts),
          lowercase := disable_empty (lowercase opts),
          numbers := disable_empty (numbers opts),
          specials := disable_empty (specials opts)\<rparr>))) p \<and>
   ((uppercase opts = Some (Flag False) \<or> uppercase opts = Some (Alphabet [])) \<and>
    (lowercase opts = Some (Flag False) \<or> lowercase opts = Some (Alphabet [])) \<and>
    (numbers opts = Some (Flag False) \<or> numbers opts = Some (Alphabet [])) \<and>
    (specials opts = Some (Flag False) \<or> specials opts = Some (Alphabet [])) \<and>
    1 \<le> (case length_opt opts of None \<Rightarrow> DEFAULT_LENGTH | Some n \<Rightarrow> n) \<and>
    (timestamp opts = None \<or>
     int (length (timestamp_string now (timestamp opts))) <
       (case length_opt opts of None \<Rightarrow> DEFAULT_LENGTH | Some n \<Rightarrow> n)) \<longrightarrow>
      secureGenerate src now (Some (Options opts)) p = Some (Inl Error_no_character_types, p))"
proof (intro conjI impI)
  show "\<not> shouldIncludeSet (Alphabet [])" by (simp add: shouldIncludeSet_def)
  show "add_class src (Alphabet []) d acc st = Some (Inr acc, st)"
    by (simp add: add_class_def shouldIncludeSet_def return_def)
  show "secureGenerate src now (Some (Options opts)) p =
     secureGenerate src now
       (Some (Options (opts\<lparr>uppercase := disable_empty (uppercase opts),
          lowercase := disable_empty (lowercase opts),
          numbers := disable_empty (numbers opts),
          specials := disable_empty (specials opts)\<rparr>))) p"
    by (rule secureGenerate_disable_empty [symmetric])
next
  let ?len = "case length_opt opts of None \<Rightarrow> DEFAULT_LENGTH | Some n \<Rightarrow> n"
  let ?u = "case uppercase opts of None \<Rightarrow> Flag True | Some s \<Rightarrow> s"
  let ?l = "case lowercase opts of None \<Rightarrow> Flag True | Some s \<Rightarrow> s"
  let ?n = "case numbers opts of None \<Rightarrow> Flag True | Some s \<Rightarrow> s"
  let ?s = "case specials opts of None \<Rightarrow> Flag True | Some s \<Rightarrow> s"
  assume a: "(uppercase opts = Some (Flag False) \<or> uppercase opts = Some (Alphabet [])) \<and>
    (lowercase opts = Some (Flag False) \<or> lowercase opts = Some (Alphabet [])) \<and>
    (numbers opts = Some (Flag False) \<or> numbers opts = Some (Alphabet [])) \<and>
    (specials opts = Some (Flag False) \<or> specials opts = Some (Alphabet [])) \<and>
    1 \<le> ?len \<and>
    (timestamp opts = None \<or> int (length (timestamp_string now (timestamp opts))) < ?len)"
  have r: "resolve_options (Some (Options opts)) = (?len, ?u, ?l, ?n, ?s, timestamp opts)"
    by (simp add: resolve_options_def)
  from a have "enabled_alphabets ?u ?l ?n ?s = []"
    by (simp add: enabled_alphabets_def disabled_class_alphabet)
  with a show "secureGenerate src now (Some (Options opts)) p =
      Some (Inl Error_no_character_types, p)"
    by (auto simp: secureGenerate_unfold [OF r] generate_no_classes)
qed

theorem empty_selector_disabled_witness:
  "secureGenerate (\<lambda>i. 7) 0
     (Some (Options \<lparr>length_opt = None, uppercase = Some (Alphabet []),
        lowercase = Some (Flag False), numbers = Some (Alphabet []),
        specials = Some (Flag False), timestamp = None\<rparr>)) 0 =
     Some (Inl Error_no_character_types, 0)"
  using empty_selector_disabled [where src = "\<lambda>i. 7" and now = 0 and p = 0 and opts =
      "\<lparr>length_opt = None, uppercase = Some (Alphabet []),
        lowercase = Some (Flag False), numbers = Some (Alphabet []),
        specials = Some (Flag False), timestamp = None\<rparr>"
      and d = "[]" and acc = "([], [])" and st = "(createSecureRandomGenerator, 0)",
      THEN conjunct2, THEN conjunct2, THEN conjunct2]
  by (simp add: DEFAULT_LENGTH_def)

section \<open>Properties of the comparison\<close>

lemma xor32_eq_0_iff: "(x XOR y = 0) = (x = y)" for x y :: "32 word"
  by (metis xor.left_neutral xor.assoc xor_self_eq)

lemma ucast_8_32_inj: "(ucast x = (ucast y :: 32 word)) = (x = y)" for x y :: "8 word"
  by (simp add: word_eq_iff_unsigned [where ?'a = int] uint_up_ucast is_up)

lemma ucast_8_32_0: "(ucast x = (0 :: 32 word)) = (x = 0)" for x :: "8 word"
  using ucast_8_32_inj [of x 0] by simp

lemma compare_loop_iterations: "snd (compare_loop a b i m) = length a"
  by (induction a arbitrary: i m) (simp_all add: case_prod_beta)

lemma compare_loop_zero:
  "(fst (compare_loop a b i m) = 0) =
     (m = 0 \<and> (\<forall>k<length a. a ! k = (if i + k < length b then b ! (i + k) else 0)))"
proof (induction a arbitrary: i m)
  case Nil
  then show ?case by simp
next
  case (Cons x a)
  show ?case
    by (simp add: case_prod_beta Cons.IH or_eq_0_iff xor32_eq_0_iff ucast_8_32_inj ucast_8_32_0
          All_less_Suc2 conj_commute conj_left_commute)
qed


lemma secureCompare_run_present:
  assumes "\<not> reference_missing reference"
  shows "secureCompare_run encode reference incoming =
           (let a = toUint8Array encode (the reference);
                b = (case incoming of None \<Rightarrow> [] | Some inc \<Rightarrow> toUint8Array encode inc);
                mismatch0 = (case incoming of None \<Rightarrow> 1
                             | Some _ \<Rightarrow> word_of_nat (length a) XOR word_of_nat (length b))
            in (Inr (fst (compare_loop a b 0 mismatch0) = 0), length a))"
  using assms compare_loop_iterations [of "toUint8Array encode (the reference)"]
  by (cases incoming) (simp_all add: secureCompare_run_def Let_def case_prod_beta)

lemma word_of_nat_32_inj:
  "m < 2 ^ 32 \<Longrightarrow> n < 2 ^ 32 \<Longrightarrow> (word_of_nat m = (word_of_nat n :: 32 word)) = (m = n)"
  by (simp add: word_of_nat_eq_iff take_bit_nat_eq_self)

lemma secureCompare_bounded:
  assumes "\<not> reference_missing reference"
    and "length (toUint8Array encode (the reference)) < 2 ^ 32"
    and "\<And>inc. incoming = Some inc \<Longrightarrow> length (toUint8Array encode inc) < 2 ^ 32"
  shows "secureCompare encode reference incoming =
           Inr (\<exists>inc. incoming = Some inc \<and>
                  toUint8Array encode inc = toUint8Array encode (the reference))"
proof (cases incoming)
  case None
  then show ?thesis
    by (simp add: secureCompare_def secureCompare_run_present [OF assms(1)] compare_loop_zero)
next
  case (Some inc)
  let ?a = "toUint8Array encode (the reference)"
  let ?b = "toUint8Array encode inc"
  have len: "(word_of_nat (length ?a) XOR word_of_nat (length ?b) = (0 :: 32 word)) =
             (length ?a = length ?b)"
    using assms(2) assms(3) [OF Some] by (simp add: xor32_eq_0_iff word_of_nat_32_inj)
  have z: "(fst (compare_loop ?a ?b 0 (word_of_nat (length ?a) XOR word_of_nat (length ?b))) = 0) =
           (?b = ?a)"
    unfolding compare_loop_zero len by (auto simp: list_eq_iff_nth_eq)
  show ?thesis
    unfolding secureCompare_def secureCompare_run_present [OF assms(1)] Some Let_def
    by (simp add: z)
qed

text \<open>
  Claim C3 fails on the code. For operands shorter than \<open>2^32\<close> bytes the comparison is
  right (lemma \<open>secureCompare_bounded\<close>), but the length check \<open>a.length ^ b.length\<close> is
  done on 32-bit integers: an incoming byte sequence whose length differs from the
  reference's by a multiple of \<open>2^32\<close> and that starts with the reference's bytes
  compares equal. Here the reference is one zero byte and the incoming operand is
  \<open>2^32 + 1\<close> zero bytes.
\<close>

theorem secureCompare_length_wraps:
  "secureCompare utf8_encode (Some (Bytes [0])) (Some (Bytes (replicate (2 ^ 32 + 1) 0))) = Inr True"
  by (simp add: secureCompare_def secureCompare_run_def reference_missing_def toUint8Array_def)

lemma compare_loop_fold:
  "fst (compare_loop a b i m) =
     fold (\<lambda>k m. m OR (ucast (a ! k) XOR (if i + k < length b then ucast (b ! (i + k)) else 0)))
       [0 ..< length a] m"
proof (induction a arbitrary: i m)
  case Nil
  then show ?case by simp
next
  case (Cons x a)
  have "[0 ..< length (x # a)] = 0 # map Suc [0 ..< length a]"
    by (simp add: upt_conv_Cons map_Suc_upt del: upt_Suc)
  then show ?case
    by (simp add: case_prod_beta Cons.IH fold_map comp_def del: upt_Suc cong: if_cong)
qed

lemma compare_loop_or_all: "fst (compare_loop a b 0 m) = or_all a b m"
  by (simp add: compare_loop_fold or_all_def cong: if_cong)

text \<open>
  Claim C8. \<open>secureCompare\<close> fails with the precondition error exactly when the reference
  is absent, the empty string or a byte sequence of length 0, and it does so before the
  comparison loop performs any iteration. For every other reference it returns a
  boolean, whatever the incoming operand is.
\<close>

theorem secureCompare_precondition:
  "((reference = None \<or> reference = Some (Text []) \<or> reference = Some (Bytes [])) \<longrightarrow>
      secureCompare_run encode reference incoming = (Inl Error_reference_undefined, 0)) \<and>
   (\<not> (reference = None \<or> reference = Some (Text []) \<or> reference = Some (Bytes [])) \<longrightarrow>
      (\<exists>res n. secureCompare_run encode reference incoming = (Inr res, n)))"
proof -
  have "reference_missing reference =
          (reference = None \<or> reference = Some (Text []) \<or> reference = Some (Bytes []))"
    by (auto simp: reference_missing_def split: option.splits operand.splits)
  then show ?thesis
    using secureCompare_run_present [of reference encode incoming]
    by (auto simp: secureCompare_run_def Let_def)
qed

theorem secureCompare_precondition_witness:
  "secureCompare_run utf8_encode (Some (Text [])) (Some (Text ''abc'')) =
     (Inl Error_reference_undefined, 0) \<and>
   secureCompare_run utf8_encode (Some (Text ''abc'')) None = (Inr False, 3)"
proof -
  have "secureCompare_run utf8_encode (Some (Text ''abc'')) None = (Inr False, 3)"
    by (simp add: secureCompare_run_def reference_missing_def toUint8Array_def utf8_encode_def
          utf8_char_def)
  with secureCompare_precondition [of "Some (Text [])" utf8_encode "Some (Text ''abc'')"]
  show ?thesis by simp
qed

text \<open>
  Claim C9, for what a functional model can say of it (the number of loop iterations,
  not the time on a clock, and not the work of \<open>TextEncoder\<close>): for a reference that
  passes the precondition the loop performs exactly as many iterations as the reference
  has bytes (the bytes of its encoding, for a string), the result is the OR over all of these indices of the XOR of the two bytes
  (0 where the incoming operand has none), nothing being skipped after a mismatch; and
  the number of iterations is the same for any two incoming operands, absent or not.
\<close>

theorem secureCompare_iterations:
  "(\<not> reference_missing reference \<longrightarrow>
      secureCompare_run encode reference incoming =
        (let a = toUint8Array encode (the reference);
             b = (case incoming of None \<Rightarrow> [] | Some inc \<Rightarrow> toUint8Array encode inc);
             mismatch0 = (case incoming of None \<Rightarrow> 1
                          | Some _ \<Rightarrow> word_of_nat (length a) XOR word_of_nat (length b))
         in (Inr (or_all a b mismatch0 = 0), length a))) \<and>
   snd (secureCompare_run encode reference incoming) =
     snd (secureCompare_run encode reference incoming')"
proof (intro conjI impI)
  assume r: "\<not> reference_missing reference"
  show "secureCompare_run encode reference incoming =
        (let a = toUint8Array encode (the reference);
             b = (case incoming of None \<Rightarrow> [] | Some inc \<Rightarrow> toUint8Array encode inc);
             mismatch0 = (case incoming of None \<Rightarrow> 1
                          | Some _ \<Rightarrow> word_of_nat (length a) XOR word_of_nat (length b))
         in (Inr (or_all a b mismatch0 = 0), length a))"
    by (simp add: secureCompare_run_present [OF r] compare_loop_or_all)
next
  show "snd (secureCompare_run encode reference incoming) =
     snd (secureCompare_run encode reference incoming')"
  proof (cases "reference_missing reference")
    case True
    then show ?thesis by (simp add: secureCompare_run_def)
  next
    case False
    then show ?thesis by (simp add: secureCompare_run_present Let_def)
  qed
qed

theorem secureCompare_iterations_witness:
  "secureCompare_run utf8_encode (Some (Text ''abc'')) (Some (Text ''xbcdef'')) = (Inr False, 3) \<and>
   secureCompare_run utf8_encode (Some (Text ''abc'')) (Some (Text ''abc'')) = (Inr True, 3)"
proof -
  have r: "\<not> reference_missing (Some (Text ''abc''))" by (simp add: reference_missing_def)
  from secureCompare_iterations [of "Some (Text ''abc'')" utf8_encode "Some (Text ''xbcdef'')"]
    secureCompare_iterations [of "Some (Text ''abc'')" utf8_encode "Some (Text ''abc'')"] r
  show ?thesis
    by (simp add: toUint8Array_def utf8_encode_def utf8_char_def or_all_def upt_conv_Cons)
qed

end
